theory Spec2Isabelle
  imports Complex_Main
begin

section \<open>Math Ninja: the game screen of app/game.tsx\<close>

text \<open>
  The embedding follows \<^verbatim>\<open>src/app/game.tsx\<close>. JavaScript numbers that only ever hold
  integers (score, lives, answers, indices, timer delays) are \<open>int\<close> or \<open>nat\<close>.
  Coordinates are \<open>real\<close>. The arithmetic of the slice test (\<^verbatim>\<open>segIntersect\<close>,
  \<^verbatim>\<open>segIntersectsRect\<close>, the padding of the rectangle and the positions of the halves in
  \<^verbatim>\<open>jsHandleSlice\<close> and \<^verbatim>\<open>spawnHalves\<close>) is the arithmetic of IEEE doubles: every
  operation is rounded to the nearest number with 53 significant bits, ties to even. The
  exponent range is not bounded, so overflow, subnormal numbers and NaN are not modelled.
  The arithmetic of the falling bodies and of \<^verbatim>\<open>buildWave\<close> is read exactly.
  \<^verbatim>\<open>Math.random()\<close> is a list of draws that the code consumes in order; the list is
  also the fuel of the one unbounded loop. The \<^verbatim>\<open>useState\<close> cells hold the state that
  the queued updates give, in the order they were queued; the \<^verbatim>\<open>useRef\<close> mirrors of
  \<open>hidden\<close>, \<open>labels\<close>, \<open>correctIdx\<close> and \<open>gameOver\<close> are values of their own, which
  the handlers read and which only a commit refreshes from the state.
\<close>

subsection \<open>Constants\<close>

definition FRUIT_W :: real where "FRUIT_W = 140"
definition FRUIT_H :: real where "FRUIT_H = 84"
definition GRAVITY :: real where "GRAVITY = 0.2"
definition FRUIT_COUNT :: nat where "FRUIT_COUNT = 3"

subsection \<open>The arithmetic of doubles\<close>

text \<open>
  Rounding a real to the nearest integer, ties to the even one; and rounding a real to
  the nearest double: \<open>x\<close> lies in the binade \<open>2 ^ E \<le> \<bar>x\<bar> < 2 ^ (E + 1)\<close> with
  \<open>E = \<lfloor>log 2 \<bar>x\<bar>\<rfloor>\<close>, where the doubles are the multiples of \<open>2 ^ (E - 52)\<close>.
\<close>

definition rne :: "real \<Rightarrow> int" where
  "rne y =
     (let f = \<lfloor>y\<rfloor>; r = y - of_int f in
      if r < 1 / 2 then f else if 1 / 2 < r then f + 1 else if even f then f else f + 1)"

definition rnd :: "real \<Rightarrow> real" where
  "rnd x =
     (if x = 0 then 0
      else
        let e = \<lfloor>log 2 \<bar>x\<bar>\<rfloor> - 52
        in of_int (rne (x / 2 powr of_int e)) * 2 powr of_int e)"

text \<open>
  The operators \<^verbatim>\<open>+\<close>, \<^verbatim>\<open>-\<close>, \<^verbatim>\<open>*\<close> and \<^verbatim>\<open>/\<close> on doubles; the unary minus is
  exact.
\<close>

definition dadd :: "real \<Rightarrow> real \<Rightarrow> real" where "dadd a b = rnd (a + b)"
definition dsub :: "real \<Rightarrow> real \<Rightarrow> real" where "dsub a b = rnd (a - b)"
definition dmul :: "real \<Rightarrow> real \<Rightarrow> real" where "dmul a b = rnd (a * b)"
definition ddiv :: "real \<Rightarrow> real \<Rightarrow> real" where "ddiv a b = rnd (a / b)"

subsection \<open>Geometry\<close>

definition segIntersect ::
  "real \<Rightarrow> real \<Rightarrow> real \<Rightarrow> real \<Rightarrow> real \<Rightarrow> real \<Rightarrow> real \<Rightarrow> real \<Rightarrow> bool" where
  "segIntersect x1 y1 x2 y2 x3 y3 x4 y4 =
     (let d = dsub (dmul (dsub x1 x2) (dsub y3 y4)) (dmul (dsub y1 y2) (dsub x3 x4)) in
      if d = 0 then False
      else
        let t = ddiv (dsub (dmul (dsub x1 x3) (dsub y3 y4)) (dmul (dsub y1 y3) (dsub x3 x4))) d;
            u = ddiv (- (dsub (dmul (dsub x1 x2) (dsub y1 y3)) (dmul (dsub y1 y2) (dsub x1 x3)))) d
        in t \<ge> 0 \<and> t \<le> 1 \<and> u \<ge> 0 \<and> u \<le> 1)"

definition segIntersectsRect ::
  "real \<Rightarrow> real \<Rightarrow> real \<Rightarrow> real \<Rightarrow> real \<Rightarrow> real \<Rightarrow> real \<Rightarrow> real \<Rightarrow> bool" where
  "segIntersectsRect x1 y1 x2 y2 rx ry rw rh =
     (let xA = rx; xB = dadd rx rw; yA = ry; yB = dadd ry rh in
      segIntersect x1 y1 x2 y2 xA yA xB yA \<or>
      segIntersect x1 y1 x2 y2 xB yA xB yB \<or>
      segIntersect x1 y1 x2 y2 xB yB xA yB \<or>
      segIntersect x1 y1 x2 y2 xA yB xA yA)"

subsection \<open>Falling bodies\<close>

text \<open>
  One call of the frame callback of \<^verbatim>\<open>SlicedHalf\<close>: the new body and whether
  \<^verbatim>\<open>onDone\<close> was called. \<open>screenH\<close> is the window height.
\<close>

record half_body =
  h_x :: real
  h_y :: real
  h_vx :: real
  h_vy :: real
  h_rot :: real

definition halfTick :: "real \<Rightarrow> half_body \<Rightarrow> half_body \<times> bool" where
  "halfTick screenH h =
     (let h1 = h\<lparr>h_x := h_x h + h_vx h\<rparr>;
          h2 = h1\<lparr>h_y := h_y h1 + h_vy h1\<rparr>;
          h3 = h2\<lparr>h_vy := h_vy h2 + GRAVITY\<rparr>;
          h4 = h3\<lparr>h_rot := h_rot h3 + 2\<rparr>
      in (h4, h_y h4 > screenH + 200))"

text \<open>
  One call of the frame callback of \<^verbatim>\<open>FruitBubble\<close>, with the \<open>hidden\<close> prop of that
  frame: the new body and whether \<^verbatim>\<open>onFall\<close> was called.
\<close>

record bubble =
  b_x :: real
  b_y :: real
  b_vy :: real
  fell :: bool

definition bubbleTick :: "real \<Rightarrow> bool \<Rightarrow> bubble \<Rightarrow> bubble \<times> bool" where
  "bubbleTick screenH hid b =
     (if hid then (b, False)
      else
        let b1 = b\<lparr>b_y := b_y b + b_vy b\<rparr>;
            b2 = b1\<lparr>b_vy := b_vy b1 + GRAVITY\<rparr>;
            b3 = (if b_y b2 < screenH * 0.10 \<and> b_vy b2 < 0 then b2\<lparr>b_vy := 0\<rparr> else b2)
        in if \<not> fell b3 \<and> b_y b3 > screenH + 120 then (b3\<lparr>fell := True\<rparr>, True)
           else (b3, False))"

text \<open>A run of frames: the body after them and the number of events emitted.\<close>

fun halfRun :: "real \<Rightarrow> nat \<Rightarrow> half_body \<Rightarrow> half_body \<times> nat" where
  "halfRun screenH 0 h = (h, 0)"
| "halfRun screenH (Suc n) h =
     (case halfTick screenH h of
        (h', ev) \<Rightarrow> (case halfRun screenH n h' of (h'', k) \<Rightarrow> (h'', (if ev then 1 else 0) + k)))"

fun bubbleRun :: "real \<Rightarrow> bool list \<Rightarrow> bubble \<Rightarrow> bubble \<times> nat" where
  "bubbleRun screenH [] b = (b, 0)"
| "bubbleRun screenH (hid # hs) b =
     (case bubbleTick screenH hid b of
        (b', ev) \<Rightarrow> (case bubbleRun screenH hs b' of (b'', k) \<Rightarrow> (b'', (if ev then 1 else 0) + k)))"

text \<open>The imperative handle of a bubble: \<^verbatim>\<open>rect()\<close>.\<close>

datatype rectOutcome = Raises | Returns real real real real

definition rect :: "bubble \<Rightarrow> rectOutcome" where
  "rect b = Returns (b_x b) (b_y b) FRUIT_W FRUIT_H"

subsection \<open>Strings of the JavaScript library\<close>

text \<open>\<^verbatim>\<open>String(n)\<close> for an integral number, as a template literal prints it.\<close>

definition digitChar :: "nat \<Rightarrow> char" where
  "digitChar n = ''0123456789'' ! n"

fun natToString :: "nat \<Rightarrow> string" where
  "natToString n = (if n < 10 then [digitChar n] else natToString (n div 10) @ [digitChar (n mod 10)])"

declare natToString.simps [simp del]

definition numToString :: "int \<Rightarrow> string" where
  "numToString v = (if v < 0 then CHR ''-'' # natToString (nat (- v)) else natToString (nat v))"

text \<open>\<^verbatim>\<open>s.split(c)\<close> for a one-character separator: never empty.\<close>

fun split :: "char \<Rightarrow> string \<Rightarrow> string list" where
  "split c [] = [[]]"
| "split c (x # xs) =
     (case split c xs of
        [] \<Rightarrow> [[]]
      | p # ps \<Rightarrow> if x = c then [] # p # ps else (x # p) # ps)"

text \<open>\<^verbatim>\<open>s.trim()\<close> on the one-byte white space characters.\<close>

definition isWhiteSpace :: "char \<Rightarrow> bool" where
  "isWhiteSpace c = (c \<in> set [CHR '' '', CHR 0x09, CHR 0x0A, CHR 0x0B, CHR 0x0C, CHR 0x0D])"

definition trim :: "string \<Rightarrow> string" where
  "trim s = rev (dropWhile isWhiteSpace (rev (dropWhile isWhiteSpace s)))"

subsection \<open>Session state\<close>

record halfItem =
  id_half :: int
  left_half :: bool
  x_half :: real
  y_half :: real
  leftText :: string
  rightText :: string

text \<open>
  The \<^verbatim>\<open>useState\<close> cells and \<^verbatim>\<open>fallenCountRef\<close> of \<^verbatim>\<open>GameScreen\<close>.
  \<open>timers\<close> holds the delays of the pending \<^verbatim>\<open>setTimeout\<close> callbacks, in the order
  they were scheduled; every one of them runs \<^verbatim>\<open>setWaveId((id) => id + 1); buildWave()\<close>.
  An updater function passed to a setter is applied when it is queued.
\<close>

record session =
  score :: int
  lives :: int
  gameOver :: bool
  waveId :: int
  labels :: "string list"
  answers :: "int list"
  correctIdx :: int
  hidden :: "bool list"
  halves :: "halfItem list"
  fallenCount :: int
  timers :: "nat list"

text \<open>
  The refs \<^verbatim>\<open>gameOverRef\<close>, \<^verbatim>\<open>hiddenRef\<close>, \<^verbatim>\<open>labelsRef\<close> and \<^verbatim>\<open>correctIdxRef\<close>.
  Each is written by one \<^verbatim>\<open>useEffect\<close> only, which runs after a commit and copies the
  state cell: \<open>mirrorsOf st\<close> is what the refs hold once the state \<open>st\<close> is committed.
  Between two commits the handlers read the refs of the earlier commit.
\<close>

record mirrors =
  gameOverRef :: bool
  hiddenRef :: "bool list"
  labelsRef :: "string list"
  correctIdxRef :: int

definition mirrorsOf :: "session \<Rightarrow> mirrors" where
  "mirrorsOf st =
     \<lparr>gameOverRef = gameOver st, hiddenRef = hidden st, labelsRef = labels st,
      correctIdxRef = correctIdx st\<rparr>"

text \<open>The label of a half as the view renders it.\<close>

definition halfLabel :: "halfItem \<Rightarrow> string" where
  "halfLabel h = (if left_half h then leftText h else rightText h)"

subsection \<open>handleFruitFall\<close>

definition handleFruitFall :: "mirrors \<Rightarrow> session \<Rightarrow> session" where
  "handleFruitFall m st =
     (let st1 = st\<lparr>fallenCount := fallenCount st + 1\<rparr> in
      if fallenCount st1 \<ge> int FRUIT_COUNT \<and> \<not> gameOverRef m then
        (let next = lives st1 - 1 in
         if next \<le> 0 then st1\<lparr>gameOver := True, lives := 0\<rparr>
         else st1\<lparr>timers := timers st1 @ [250], lives := next\<rparr>)
      else st1)"

subsection \<open>Math.random and the wave generator\<close>

text \<open>A result of \<^verbatim>\<open>Math.random()\<close> lies in the half-open unit interval.\<close>

definition validDraw :: "real \<Rightarrow> bool" where
  "validDraw r = (0 \<le> r \<and> r < 1)"

text \<open>\<^verbatim>\<open>Set.prototype.add\<close>: a set keeps its elements in insertion order.\<close>

definition setAdd :: "int list \<Rightarrow> int \<Rightarrow> int list" where
  "setAdd pool v = (if v \<in> set pool then pool else pool @ [v])"

text \<open>
  The \<^verbatim>\<open>while (pool.size < FRUIT_COUNT)\<close> loop. Each turn consumes one draw; with no
  draw left the loop has not returned.
\<close>

fun poolLoop :: "int \<Rightarrow> int list \<Rightarrow> real list \<Rightarrow> (int list \<times> real list) option" where
  "poolLoop correct pool [] = (if length pool < FRUIT_COUNT then None else Some (pool, []))"
| "poolLoop correct pool (r # rs) =
     (if length pool < FRUIT_COUNT then
        (let delta = \<lfloor>r * 5\<rfloor> - 2;
             candidate = correct + delta + (if delta = 0 then 1 else 0)
         in poolLoop correct (setAdd pool candidate) rs)
      else Some (pool, r # rs))"

text \<open>
  The shuffle \<^verbatim>\<open>for (let i = arr.length - 1; i > 0; i--)\<close>; the first argument is the
  loop variable \<open>i\<close>. With a valid draw \<open>j\<close> is at most \<open>i\<close>, so both indices of the
  swap are in range; the properties of the shuffle are stated for valid draws only, and
  for a draw that \<^verbatim>\<open>Math.random()\<close> cannot return the function is not a model of the
  source.
\<close>

fun shuffleLoop :: "nat \<Rightarrow> int list \<Rightarrow> real list \<Rightarrow> (int list \<times> real list) option" where
  "shuffleLoop 0 arr rs = Some (arr, rs)"
| "shuffleLoop (Suc k) arr [] = None"
| "shuffleLoop (Suc k) arr (r # rs) =
     (let i = Suc k;
          j = nat \<lfloor>r * (real i + 1)\<rfloor>
      in shuffleLoop k (arr[i := arr ! j, j := arr ! i]) rs)"

text \<open>\<^verbatim>\<open>Array.prototype.indexOf\<close>: the first position, or -1.\<close>

fun indexOf :: "int list \<Rightarrow> int \<Rightarrow> int" where
  "indexOf [] v = - 1"
| "indexOf (x # xs) v =
     (if x = v then 0 else (let k = indexOf xs v in if k < 0 then - 1 else k + 1))"

text \<open>
  The locals of \<^verbatim>\<open>buildWave\<close> up to the end of the shuffle: \<open>a\<close>, \<open>b\<close>, the shuffled
  \<open>arr\<close>, and the draws left.
\<close>

definition drawWave :: "real list \<Rightarrow> (int \<times> int \<times> int list \<times> real list) option" where
  "drawWave rs =
     (case rs of
        ra # rb # rs1 \<Rightarrow>
          (let a = \<lfloor>ra * 10\<rfloor>;
               b = \<lfloor>rb * 10\<rfloor>;
               correct = a + b
           in case poolLoop correct [correct] rs1 of
                None \<Rightarrow> None
              | Some (pool, rs2) \<Rightarrow>
                  (case shuffleLoop (length pool - 1) pool rs2 of
                     None \<Rightarrow> None
                   | Some (arr, rs3) \<Rightarrow> Some (a, b, arr, rs3)))
      | _ \<Rightarrow> None)"

definition waveLabel :: "int \<Rightarrow> int \<Rightarrow> int \<Rightarrow> string" where
  "waveLabel a b v = numToString a @ '' + '' @ numToString b @ '' = '' @ numToString v"

definition buildWave :: "session \<Rightarrow> real list \<Rightarrow> (session \<times> real list) option" where
  "buildWave st rs =
     (case drawWave rs of
        None \<Rightarrow> None
      | Some (a, b, arr, rs') \<Rightarrow>
          Some (st\<lparr>answers := arr,
                   labels := map (waveLabel a b) arr,
                   correctIdx := indexOf arr (a + b),
                   hidden := replicate FRUIT_COUNT False,
                   halves := [],
                   fallenCount := 0\<rparr>, rs'))"

text \<open>The state of the first render, and the mount effect that builds the first wave.\<close>

definition initSession :: session where
  "initSession =
     \<lparr>score = 0, lives = 3, gameOver = False, waveId = 0,
      labels = replicate FRUIT_COUNT [], answers = replicate FRUIT_COUNT 0,
      correctIdx = 0, hidden = replicate FRUIT_COUNT False, halves = [],
      fallenCount = 0, timers = []\<rparr>"

text \<open>The callback of both \<^verbatim>\<open>setTimeout\<close> calls, and the firing of the \<open>k\<close>-th pending one.\<close>

definition nextWave :: "session \<Rightarrow> real list \<Rightarrow> (session \<times> real list) option" where
  "nextWave st rs = buildWave (st\<lparr>waveId := waveId st + 1\<rparr>) rs"

definition fireTimer :: "nat \<Rightarrow> session \<Rightarrow> real list \<Rightarrow> (session \<times> real list) option" where
  "fireTimer k st rs =
     nextWave (st\<lparr>timers := take k (timers st) @ drop (Suc k) (timers st)\<rparr>) rs"

definition restart :: "session \<Rightarrow> real list \<Rightarrow> (session \<times> real list) option" where
  "restart st rs =
     buildWave (st\<lparr>score := 0, lives := 3, gameOver := False, waveId := waveId st + 1\<rparr>) rs"

subsection \<open>Slicing\<close>

text \<open>\<^verbatim>\<open>xs[i]\<close> is \<^verbatim>\<open>undefined\<close> (here \<open>None\<close>) out of range.\<close>

definition jsIndex :: "'a list \<Rightarrow> nat \<Rightarrow> 'a option" where
  "jsIndex xs i = (if i < length xs then Some (xs ! i) else None)"

text \<open>
  \<^verbatim>\<open>copy[i] = true\<close> on a copy of the flags; an assignment past the end extends the
  array, and the holes it leaves read as falsy.
\<close>

definition setTrue :: "bool list \<Rightarrow> nat \<Rightarrow> bool list" where
  "setTrue xs i =
     (if i < length xs then xs[i := True] else xs @ replicate (i - length xs) False @ [True])"

text \<open>
  \<open>idBase\<close> is the value of \<^verbatim>\<open>Date.now() + Math.floor(Math.random() * 1000)\<close>, an
  input of the handler.
\<close>

definition spawnHalves :: "real \<Rightarrow> real \<Rightarrow> string \<Rightarrow> int \<Rightarrow> session \<Rightarrow> session" where
  "spawnHalves cx cy fullLabel idBase st =
     (let parts = split CHR ''='' fullLabel;
          leftText0 = jsIndex parts 0;
          rightTextRaw = jsIndex parts 1;
          rightText0 = trim (case rightTextRaw of None \<Rightarrow> [] | Some s \<Rightarrow> s);
          left = trim (case leftText0 of None \<Rightarrow> [] | Some s \<Rightarrow> s)
      in st\<lparr>halves := halves st @
           [\<lparr>id_half = idBase, left_half = True, x_half = dsub cx 20, y_half = cy,
             leftText = left, rightText = rightText0\<rparr>,
            \<lparr>id_half = idBase + 1, left_half = False, x_half = dadd cx 20, y_half = cy,
             leftText = left, rightText = rightText0\<rparr>]\<rparr>)"

definition removeHalf :: "int \<Rightarrow> session \<Rightarrow> session" where
  "removeHalf i st = st\<lparr>halves := filter (\<lambda>h. id_half h \<noteq> i) (halves st)\<rparr>"

text \<open>
  The body of \<^verbatim>\<open>if (segIntersectsRect(...)) { ... }\<close> in \<^verbatim>\<open>jsHandleSlice\<close>, up to
  its \<^verbatim>\<open>break\<close>, for slot \<open>i\<close> whose handle returned the rectangle \<open>x y w h\<close>.
  \<open>lbl\<close> and \<open>cIdx\<close> are the values read from \<^verbatim>\<open>labelsRef\<close> and
  \<^verbatim>\<open>correctIdxRef\<close> before the loop; the setters act on the state.
\<close>

definition onHit ::
  "string list \<Rightarrow> int \<Rightarrow> real \<Rightarrow> real \<Rightarrow> real \<Rightarrow> real \<Rightarrow> int \<Rightarrow> nat \<Rightarrow> session \<Rightarrow> session" where
  "onHit lbl cIdx x y w h idBase i st =
     (let st1 = st\<lparr>hidden := setTrue (hidden st) i\<rparr>;
          st2 = spawnHalves (dadd x (ddiv w 2)) (dadd y (ddiv h 2))
                  (case jsIndex lbl i of None \<Rightarrow> [] | Some s \<Rightarrow> s) idBase st1;
          st3 = (if int i = cIdx then st2\<lparr>score := score st2 + 1\<rparr>
                 else
                   (let next = lives st2 - 1 in
                    if next \<le> 0 then st2\<lparr>gameOver := True, lives := 0\<rparr>
                    else st2\<lparr>lives := next\<rparr>))
      in st3\<lparr>timers := timers st3 @ [200]\<rparr>)"

text \<open>
  The \<^verbatim>\<open>try\<close> block for slot \<open>i\<close>. \<open>hid\<close> is the value of \<^verbatim>\<open>hiddenRef\<close> read
  before the loop; \<open>fruitRefs\<close> holds, for each slot, \<^verbatim>\<open>null\<close> (\<open>None\<close>) or what the
  handle's \<^verbatim>\<open>rect()\<close> does when called. The result is \<open>Some\<close> of the new state when
  the block reaches \<^verbatim>\<open>break\<close>, and \<open>None\<close> when it reaches \<^verbatim>\<open>continue\<close>, falls
  through, or \<^verbatim>\<open>rect()\<close> raises and the empty \<^verbatim>\<open>catch\<close> swallows it.
\<close>

definition sliceTry ::
  "bool list \<Rightarrow> string list \<Rightarrow> int \<Rightarrow> rectOutcome option list \<Rightarrow>
   real \<Rightarrow> real \<Rightarrow> real \<Rightarrow> real \<Rightarrow> int \<Rightarrow> nat \<Rightarrow> session \<Rightarrow> session option" where
  "sliceTry hid lbl cIdx fruitRefs x1 y1 x2 y2 idBase i st =
     (if jsIndex hid i = Some True then None
      else
        case jsIndex fruitRefs i of
          None \<Rightarrow> None
        | Some None \<Rightarrow> None
        | Some (Some Raises) \<Rightarrow> None
        | Some (Some (Returns x y w h)) \<Rightarrow>
            if segIntersectsRect x1 y1 x2 y2 (dsub x 12) (dsub y 12) (dadd w 24) (dadd h 24)
            then Some (onHit lbl cIdx x y w h idBase i st)
            else None)"

text \<open>
  The guard under which the \<^verbatim>\<open>try\<close> block of slot \<open>i\<close> reaches its \<^verbatim>\<open>break\<close>: the
  bubble is not hidden, its handle is there, \<^verbatim>\<open>rect()\<close> returns, and the segment
  meets the padded rectangle.
\<close>

definition hitsSlot ::
  "bool list \<Rightarrow> rectOutcome option list \<Rightarrow> real \<Rightarrow> real \<Rightarrow> real \<Rightarrow> real \<Rightarrow> nat \<Rightarrow> bool" where
  "hitsSlot hid fruitRefs x1 y1 x2 y2 i =
     (jsIndex hid i \<noteq> Some True \<and>
      (case jsIndex fruitRefs i of
         Some (Some (Returns x y w h)) \<Rightarrow>
           segIntersectsRect x1 y1 x2 y2 (dsub x 12) (dsub y 12) (dadd w 24) (dadd h 24)
       | _ \<Rightarrow> False))"

function sliceLoop ::
  "bool list \<Rightarrow> string list \<Rightarrow> int \<Rightarrow> rectOutcome option list \<Rightarrow>
   real \<Rightarrow> real \<Rightarrow> real \<Rightarrow> real \<Rightarrow> int \<Rightarrow> nat \<Rightarrow> session \<Rightarrow> session" where
  "sliceLoop hid lbl cIdx fruitRefs x1 y1 x2 y2 idBase i st =
     (if i < FRUIT_COUNT then
        (case sliceTry hid lbl cIdx fruitRefs x1 y1 x2 y2 idBase i st of
           Some st' \<Rightarrow> st'
         | None \<Rightarrow> sliceLoop hid lbl cIdx fruitRefs x1 y1 x2 y2 idBase (i + 1) st)
      else st)"
  by pat_completeness auto
termination
  by (relation "measure (\<lambda>(hid, lbl, cIdx, fruitRefs, x1, y1, x2, y2, idBase, i, st). FRUIT_COUNT - i)")
    auto

declare sliceLoop.simps [simp del]

text \<open>
  The handler reads the four refs, \<open>m\<close>, and queues its updates on the state, \<open>st\<close>.
\<close>

definition jsHandleSlice ::
  "mirrors \<Rightarrow> session \<Rightarrow> rectOutcome option list \<Rightarrow> real \<Rightarrow> real \<Rightarrow> real \<Rightarrow> real \<Rightarrow> int \<Rightarrow>
   session" where
  "jsHandleSlice m st fruitRefs x1 y1 x2 y2 idBase =
     (if gameOverRef m then st
      else sliceLoop (hiddenRef m) (labelsRef m) (correctIdxRef m) fruitRefs x1 y1 x2 y2 idBase 0 st)"

subsection \<open>Reachable session states\<close>

text \<open>
  The pairs of a session state and the refs that a run of the screen can reach. Every
  event can come from any reachable pair, with any inputs, and a commit, which copies the
  state into the refs, can come between any two events or stay away: more than the host
  runtime can deliver (a fall event needs a mounted bubble, a restart needs the game-over
  overlay). The first render creates the refs from the first state, and the mount effect
  builds the first wave after it.
\<close>

inductive reachable :: "session \<Rightarrow> mirrors \<Rightarrow> bool" where
  first_render: "reachable initSession (mirrorsOf initSession)"
| mount: "buildWave initSession rs = Some (st, rs') \<Longrightarrow> reachable st (mirrorsOf initSession)"
| commit: "reachable st m \<Longrightarrow> reachable st (mirrorsOf st)"
| slice: "reachable st m \<Longrightarrow> reachable (jsHandleSlice m st fruitRefs x1 y1 x2 y2 idBase) m"
| fall: "reachable st m \<Longrightarrow> reachable (handleFruitFall m st) m"
| timeout: "reachable st m \<Longrightarrow> k < length (timers st) \<Longrightarrow> fireTimer k st rs = Some (st', rs')
     \<Longrightarrow> reachable st' m"
| play_again: "reachable st m \<Longrightarrow> restart st rs = Some (st', rs') \<Longrightarrow> reachable st' m"
| half_done: "reachable st m \<Longrightarrow> reachable (removeHalf i st) m"

subsection \<open>Notions used in the properties\<close>

text \<open>
  The offset that one turn of the \<^verbatim>\<open>while\<close> loop of \<^verbatim>\<open>buildWave\<close> adds to
  \<open>correct\<close> for the draw \<open>r\<close>: the loop's \<open>candidate\<close> is \<open>correct + drawOffset r\<close>.
\<close>

definition drawOffset :: "real \<Rightarrow> int" where
  "drawOffset r = (let delta = \<lfloor>r * 5\<rfloor> - 2 in delta + (if delta = 0 then 1 else 0))"

text \<open>
  The two tests with every operation exact, for the proofs: the doubles compute them on
  the coordinates of \<open>gridPoint\<close>.
\<close>

definition segIntersectExact ::
  "real \<Rightarrow> real \<Rightarrow> real \<Rightarrow> real \<Rightarrow> real \<Rightarrow> real \<Rightarrow> real \<Rightarrow> real \<Rightarrow> bool" where
  "segIntersectExact x1 y1 x2 y2 x3 y3 x4 y4 =
     (let d = (x1 - x2) * (y3 - y4) - (y1 - y2) * (x3 - x4) in
      if d = 0 then False
      else
        let t = ((x1 - x3) * (y3 - y4) - (y1 - y3) * (x3 - x4)) / d;
            u = - ((x1 - x2) * (y1 - y3) - (y1 - y2) * (x1 - x3)) / d
        in t \<ge> 0 \<and> t \<le> 1 \<and> u \<ge> 0 \<and> u \<le> 1)"

definition segIntersectsRectExact ::
  "real \<Rightarrow> real \<Rightarrow> real \<Rightarrow> real \<Rightarrow> real \<Rightarrow> real \<Rightarrow> real \<Rightarrow> real \<Rightarrow> bool" where
  "segIntersectsRectExact x1 y1 x2 y2 rx ry rw rh =
     (let xA = rx; xB = rx + rw; yA = ry; yB = ry + rh in
      segIntersectExact x1 y1 x2 y2 xA yA xB yA \<or>
      segIntersectExact x1 y1 x2 y2 xB yA xB yB \<or>
      segIntersectExact x1 y1 x2 y2 xB yB xA yB \<or>
      segIntersectExact x1 y1 x2 y2 xA yB xA yA)"

text \<open>
  A coordinate on the grid of step \<open>1 / 2 ^ k\<close>, at most \<open>2 ^ 23\<close> steps from 0: for
  \<open>k = 0\<close> the integers up to 8388608. On such coordinates no subtraction, addition or
  product of the slice test is rounded.
\<close>

definition gridPoint :: "nat \<Rightarrow> real \<Rightarrow> bool" where
  "gridPoint k x = (of_int \<lfloor>x * 2 ^ k\<rfloor> = x * 2 ^ k \<and> \<bar>x * 2 ^ k\<bar> \<le> 2 ^ 23)"




text \<open>The invariant of the session counters.\<close>

definition sessionInv :: "session \<Rightarrow> bool" where
  "sessionInv st = (0 \<le> score st \<and> 0 \<le> lives st \<and> (gameOver st \<longleftrightarrow> lives st = 0))"

subsection \<open>A sample wave\<close>

text \<open>
  The wave that \<^verbatim>\<open>buildWave\<close> builds from the draws \<open>sampleDraws\<close>: 3 + 4, with the
  answers 8, 7 and 5; and the handles of its three bubbles on a window 600 wide, where the
  slots are at x = 30, 230 and 430, all at y = 300.
\<close>

definition sampleDraws :: "real list" where
  "sampleDraws = [0.35, 0.41, 0.5, 0.5, 0.0, 0.9, 0.1]"

definition sampleSession :: session where
  "sampleSession =
     \<lparr>score = 0, lives = 3, gameOver = False, waveId = 0,
      labels = [''3 + 4 = 8'', ''3 + 4 = 7'', ''3 + 4 = 5''], answers = [8, 7, 5],
      correctIdx = 1, hidden = [False, False, False], halves = [],
      fallenCount = 0, timers = []\<rparr>"

definition sampleRefs :: "rectOutcome option list" where
  "sampleRefs =
     [Some (rect \<lparr>b_x = 30, b_y = 300, b_vy = 0, fell = False\<rparr>),
      Some (rect \<lparr>b_x = 230, b_y = 300, b_vy = 0, fell = False\<rparr>),
      Some (rect \<lparr>b_x = 430, b_y = 300, b_vy = 0, fell = False\<rparr>)]"

text \<open>
  Two states of a run of the sample wave: one life is left as the wave is built for the
  third time; and the game is over with the three bubbles of that wave fallen. In
  \<open>overSession\<close> the game is over by a slice of bubble 0, a wrong answer, on the first
  of them when it is committed.
\<close>

definition lastLifeSession :: session where
  "lastLifeSession = sampleSession\<lparr>lives := 1, waveId := 2\<rparr>"

definition fallenSession :: session where
  "fallenSession = sampleSession\<lparr>lives := 0, gameOver := True, waveId := 2, fallenCount := 3\<rparr>"

definition overSession :: session where
  "overSession =
     jsHandleSlice (mirrorsOf lastLifeSession) lastLifeSession sampleRefs 10 340 40 340 1000"

section \<open>Properties\<close>
subsection \<open>Rounding\<close>

text \<open>
  Rounding to the nearest integer keeps the integers and the order against an integer.
\<close>

lemma rne_of_int: "rne (of_int n) = n"
  by (simp add: rne_def)

lemma rne_ge: "of_int n \<le> y \<Longrightarrow> n \<le> rne y"
proof -
  assume "of_int n \<le> y"
  then have "n \<le> \<lfloor>y\<rfloor>" by (simp add: le_floor_iff)
  then show ?thesis by (simp add: rne_def Let_def)
qed

lemma rne_le: "y \<le> of_int n \<Longrightarrow> rne y \<le> n"
proof (cases "y = of_int n")
  case True
  then show ?thesis by (simp add: rne_of_int)
next
  case False
  assume "y \<le> of_int n"
  with False have "y < of_int n" by simp
  then have "\<lfloor>y\<rfloor> < n" by (simp add: floor_less_iff)
  then show ?thesis by (simp add: rne_def Let_def)
qed

text \<open>
  The binade of a number that is not 0, and that it is the only one.
\<close>

lemma binade:
  assumes "x \<noteq> 0"
  shows "2 powr of_int \<lfloor>log 2 \<bar>x\<bar>\<rfloor> \<le> \<bar>x\<bar>"
    and "\<bar>x\<bar> < 2 powr of_int (\<lfloor>log 2 \<bar>x\<bar>\<rfloor> + 1)"
proof -
  from assms have pos: "0 < \<bar>x\<bar>" by simp
  have lo: "of_int \<lfloor>log 2 \<bar>x\<bar>\<rfloor> \<le> log 2 \<bar>x\<bar>"
    by (rule of_int_floor_le)
  have "(of_int \<lfloor>log 2 \<bar>x\<bar>\<rfloor> \<le> log 2 \<bar>x\<bar>) = (2 powr of_int \<lfloor>log 2 \<bar>x\<bar>\<rfloor> \<le> \<bar>x\<bar>)"
    using pos by (intro le_log_iff) simp_all
  with lo show "2 powr of_int \<lfloor>log 2 \<bar>x\<bar>\<rfloor> \<le> \<bar>x\<bar>" by blast
  have hi: "log 2 \<bar>x\<bar> < of_int (\<lfloor>log 2 \<bar>x\<bar>\<rfloor> + 1)" by linarith
  have "(log 2 \<bar>x\<bar> < of_int (\<lfloor>log 2 \<bar>x\<bar>\<rfloor> + 1)) = (\<bar>x\<bar> < 2 powr of_int (\<lfloor>log 2 \<bar>x\<bar>\<rfloor> + 1))"
    using pos by (intro log_less_iff) simp_all
  with hi show "\<bar>x\<bar> < 2 powr of_int (\<lfloor>log 2 \<bar>x\<bar>\<rfloor> + 1)" by blast
qed


text \<open>
  A number \<open>m * 2 ^ j\<close> with an integer \<open>m\<close> of less than 53 bits is a double: rounding
  keeps it.
\<close>

lemma two_powr_int: "0 \<le> k \<Longrightarrow> (2::real) powr of_int k = of_int (2 ^ nat k)"
  by (simp add: powr_real_of_int)

lemma powr_gt_zero_two: "0 < (2::real) powr y"
  by simp

lemma rnd_zero: "rnd 0 = 0"
  by (simp add: rnd_def)

lemma rnd_exact:
  assumes "\<bar>m\<bar> < 2 ^ 53"
  shows "rnd (of_int m * 2 powr of_int j) = of_int m * 2 powr of_int j"
proof (cases "m = 0")
  case True
  then show ?thesis by (simp add: rnd_zero)
next
  case False
  define x :: real where "x = of_int m * 2 powr of_int j"
  define E where "E = \<lfloor>log 2 \<bar>x\<bar>\<rfloor>"
  have x0: "x \<noteq> 0" using False by (simp add: x_def)
  have ax: "\<bar>x\<bar> = of_int \<bar>m\<bar> * 2 powr of_int j"
    by (simp add: x_def abs_mult)
  from assms have "(of_int \<bar>m\<bar> :: real) < of_int (2 ^ 53)"
    by (simp only: of_int_less_iff)
  then have "(of_int \<bar>m\<bar> :: real) * 2 powr of_int j < 2 ^ 53 * 2 powr of_int j"
    by simp
  also have "\<dots> = 2 powr of_int (53 + j)"
    by (simp add: powr_add)
  finally have up: "\<bar>x\<bar> < 2 powr of_int (53 + j)" by (simp only: ax)
  have "2 powr of_int E \<le> \<bar>x\<bar>" unfolding E_def using x0 by (rule binade(1))
  with up have "2 powr of_int E < (2::real) powr of_int (53 + j)" by linarith
  then have "E < 53 + j" by simp
  then have k: "0 \<le> j - (E - 52)" by simp
  have "x / 2 powr of_int (E - 52) = of_int m * 2 powr of_int (j - (E - 52))"
    by (simp add: x_def powr_diff)
  also have "\<dots> = of_int (m * 2 ^ nat (j - (E - 52)))"
    by (simp only: two_powr_int [OF k] of_int_mult)
  finally have q: "x / 2 powr of_int (E - 52) = of_int (m * 2 ^ nat (j - (E - 52)))" .
  have "rnd x = of_int (rne (x / 2 powr of_int (E - 52))) * 2 powr of_int (E - 52)"
    using x0 by (simp add: rnd_def E_def Let_def)
  also have "\<dots> = of_int (m * 2 ^ nat (j - (E - 52))) * 2 powr of_int (E - 52)"
    by (simp only: q rne_of_int)
  also have "\<dots> = (x / 2 powr of_int (E - 52)) * 2 powr of_int (E - 52)"
    by (simp only: q)
  also have "\<dots> = x" by simp
  finally show ?thesis by (simp only: x_def)
qed

lemma rnd_of_int: "\<bar>m\<bar> < 2 ^ 53 \<Longrightarrow> rnd (of_int m) = of_int m"
  using rnd_exact [of m 0] by simp

text \<open>
  Rounding keeps the sign.
\<close>

lemma rnd_pos: 
  assumes "0 < x"
  shows "0 < rnd x"
proof -
  define e where "e = \<lfloor>log 2 \<bar>x\<bar>\<rfloor> - 52"
  from assms have x0: "x \<noteq> 0" by simp
  have "2 powr of_int (e + 52) \<le> \<bar>x\<bar>"
    using binade(1) [OF x0] by (simp add: e_def)
  then have "2 powr of_int e * 2 ^ 52 \<le> x"
    using assms by (simp add: powr_add)
  then have "2 ^ 52 * 2 powr of_int e \<le> x"
    by (simp only: mult.commute)
  then have "2 ^ 52 \<le> x / 2 powr of_int e"
    by (simp only: pos_le_divide_eq [of "2 powr of_int e" "2 ^ 52" x, OF powr_gt_zero_two])
  moreover have "(1::real) \<le> 2 ^ 52" by simp
  ultimately have "of_int 1 \<le> x / 2 powr of_int e" by (simp only: of_int_1)
  then have "1 \<le> rne (x / 2 powr of_int e)" by (rule rne_ge)
  then have "0 < (of_int (rne (x / 2 powr of_int e)) :: real) * 2 powr of_int e"
    by simp
  then show ?thesis using x0 by (simp add: rnd_def e_def Let_def)
qed

lemma rnd_neg: 
  assumes "x < 0"
  shows "rnd x < 0"
proof -
  define e where "e = \<lfloor>log 2 \<bar>x\<bar>\<rfloor> - 52"
  from assms have x0: "x \<noteq> 0" by simp
  have "2 powr of_int (e + 52) \<le> \<bar>x\<bar>"
    using binade(1) [OF x0] by (simp add: e_def)
  then have "2 powr of_int e * 2 ^ 52 \<le> - x"
    using assms by (simp add: powr_add)
  then have "2 ^ 52 * 2 powr of_int e \<le> - x"
    by (simp only: mult.commute)
  then have "2 ^ 52 \<le> (- x) / 2 powr of_int e"
    by (simp only: pos_le_divide_eq [of "2 powr of_int e" "2 ^ 52" "- x", OF powr_gt_zero_two])
  moreover have "(1::real) \<le> 2 ^ 52" by simp
  ultimately have "x / 2 powr of_int e \<le> of_int (- 1)"
    by (simp only: minus_divide_left [symmetric] of_int_minus of_int_1)
  then have "rne (x / 2 powr of_int e) \<le> - 1" by (rule rne_le)
  then have "(of_int (rne (x / 2 powr of_int e)) :: real) * 2 powr of_int e < 0"
    by (simp add: mult_less_0_iff)
  then show ?thesis using x0 by (simp add: rnd_def e_def Let_def)
qed

lemma rnd_nonneg_iff: "0 \<le> rnd x \<longleftrightarrow> 0 \<le> x"
  using rnd_pos [of x] rnd_neg [of x] rnd_zero by (cases "x = 0") force+


lemma rnd_dyadic:
  assumes "\<bar>m\<bar> < 2 ^ 53"
  shows "rnd (of_int m / 2 ^ k) = of_int m / 2 ^ k"
proof -
  have "(2::real) powr of_int (- int k) = 1 / 2 ^ k"
    by (simp add: powr_minus powr_realpow inverse_eq_divide)
  then have "of_int m * 2 powr of_int (- int k) = (of_int m / 2 ^ k :: real)"
    by simp
  with rnd_exact [OF assms, of "- int k"] show ?thesis by simp
qed

text \<open>
  Rounding stays in the closed binade, so it does not move a number across 1 from below,
  and not from \<open>1 + 1 / 2 ^ 52\<close>, the double next above 1, or above it.
\<close>

lemma rnd_ge_binade:
  assumes "0 < x"
  shows "2 powr of_int \<lfloor>log 2 x\<rfloor> \<le> rnd x"
proof -
  define e where "e = \<lfloor>log 2 \<bar>x\<bar>\<rfloor> - 52"
  from assms have x0: "x \<noteq> 0" and ax: "\<bar>x\<bar> = x" by simp_all
  have "2 powr of_int (e + 52) \<le> \<bar>x\<bar>"
    using binade(1) [OF x0] by (simp add: e_def)
  then have "2 powr of_int e * 2 ^ 52 \<le> x"
    using assms by (simp add: powr_add)
  then have "2 ^ 52 * 2 powr of_int e \<le> x"
    by (simp only: mult.commute)
  then have "2 ^ 52 \<le> x / 2 powr of_int e"
    by (simp only: pos_le_divide_eq [of "2 powr of_int e" "2 ^ 52" x, OF powr_gt_zero_two])
  then have "of_int (2 ^ 52) \<le> x / 2 powr of_int e" by simp
  then have "2 ^ 52 \<le> rne (x / 2 powr of_int e)" by (rule rne_ge)
  then have "(of_int (2 ^ 52) :: real) \<le> of_int (rne (x / 2 powr of_int e))"
    by (simp only: of_int_le_iff)
  then have "(2 ^ 52 :: real) * 2 powr of_int e \<le> of_int (rne (x / 2 powr of_int e)) * 2 powr of_int e"
    by simp
  moreover have "(2 ^ 52 :: real) * 2 powr of_int e = 2 powr of_int (e + 52)"
    by (simp add: powr_add)
  moreover have "rnd x = of_int (rne (x / 2 powr of_int e)) * 2 powr of_int e"
    using x0 by (simp add: rnd_def e_def Let_def)
  ultimately have "2 powr of_int (e + 52) \<le> rnd x" by (simp only:)
  moreover have "e + 52 = \<lfloor>log 2 x\<rfloor>" by (simp add: e_def ax)
  ultimately show ?thesis by (simp only:)
qed

lemma rnd_le_binade:
  assumes "0 < x"
  shows "rnd x \<le> 2 powr of_int (\<lfloor>log 2 x\<rfloor> + 1)"
proof -
  define e where "e = \<lfloor>log 2 \<bar>x\<bar>\<rfloor> - 52"
  from assms have x0: "x \<noteq> 0" and ax: "\<bar>x\<bar> = x" by simp_all
  have "e + 53 = \<lfloor>log 2 \<bar>x\<bar>\<rfloor> + 1" by (simp add: e_def)
  then have "\<bar>x\<bar> < 2 powr of_int (e + 53)"
    using binade(2) [OF x0] by (simp only:)
  then have "x < 2 ^ 53 * 2 powr of_int e"
    using assms by (simp add: powr_add)
  then have "x / 2 powr of_int e < 2 ^ 53"
    by (simp only: pos_divide_less_eq [of "2 powr of_int e" x "2 ^ 53", OF powr_gt_zero_two])
  then have "x / 2 powr of_int e \<le> of_int (2 ^ 53)" by simp
  then have "rne (x / 2 powr of_int e) \<le> 2 ^ 53" by (rule rne_le)
  then have "(of_int (rne (x / 2 powr of_int e)) :: real) \<le> of_int (2 ^ 53)"
    by (simp only: of_int_le_iff)
  then have "of_int (rne (x / 2 powr of_int e)) * 2 powr of_int e \<le> (2 ^ 53 :: real) * 2 powr of_int e"
    by simp
  moreover have "(2 ^ 53 :: real) * 2 powr of_int e = 2 powr of_int (e + 53)"
    by (simp add: powr_add)
  moreover have "rnd x = of_int (rne (x / 2 powr of_int e)) * 2 powr of_int e"
    using x0 by (simp add: rnd_def e_def Let_def)
  ultimately have "rnd x \<le> 2 powr of_int (e + 53)" by (simp only:)
  moreover have "e + 53 = \<lfloor>log 2 x\<rfloor> + 1" by (simp add: e_def ax)
  ultimately show ?thesis by (simp only:)
qed

lemma rnd_le_one:
  assumes "x \<le> 1"
  shows "rnd x \<le> 1"
proof -
  consider "x < 0" | "x = 0" | "x = 1" | "0 < x" "x < 1" using assms by linarith
  then show ?thesis
  proof cases
    case 1
    then show ?thesis using rnd_neg [of x] by simp
  next
    case 2
    then show ?thesis by (simp add: rnd_zero)
  next
    case 3
    then show ?thesis using rnd_of_int [of 1] by simp
  next
    case 4
    then have "log 2 x < 0" by simp
    then have "\<lfloor>log 2 x\<rfloor> < 0" by (simp only: floor_less_iff of_int_0)
    then have "\<lfloor>log 2 x\<rfloor> + 1 \<le> 0" by linarith
    then have "(2::real) powr of_int (\<lfloor>log 2 x\<rfloor> + 1) \<le> 2 powr of_int 0"
      by (simp only: powr_le_cancel_iff of_int_le_iff)
    with rnd_le_binade [OF 4(1)] show ?thesis by simp
  qed
qed

lemma rnd_gt_one:
  assumes "1 + 1 / 2 ^ 52 \<le> x"
  shows "1 < rnd x"
proof -
  have pos: "0 < x" and ge1: "1 \<le> x"
    using assms by (simp_all add: add_pos_nonneg order_trans [OF _ assms])
  then have "0 \<le> log 2 x" by simp
  then have E: "0 \<le> \<lfloor>log 2 x\<rfloor>" by simp
  show ?thesis
  proof (cases "\<lfloor>log 2 x\<rfloor> = 0")
    case False
    with E have "1 \<le> \<lfloor>log 2 x\<rfloor>" by linarith
    then have "(2::real) powr of_int 1 \<le> 2 powr of_int \<lfloor>log 2 x\<rfloor>"
      by (simp only: powr_le_cancel_iff of_int_le_iff)
    with rnd_ge_binade [OF pos] show ?thesis by simp
  next
    case True
    from pos have x0: "x \<noteq> 0" and ax: "\<bar>x\<bar> = x" by simp_all
    have p: "(2::real) powr - 52 = 1 / 2 ^ 52"
      using powr_minus [of 2 "52::real"] powr_realpow [of 2 52]
      by (simp add: inverse_eq_divide)
    have r: "rnd x = of_int (rne (x * 2 ^ 52)) / 2 ^ 52"
      using x0 True by (simp add: rnd_def Let_def ax p)
    from assms have "(1 + 1 / 2 ^ 52) * 2 ^ 52 \<le> x * 2 ^ 52"
      by (simp only: mult_le_cancel_right_pos zero_less_power zero_less_numeral)
    then have "of_int (2 ^ 52 + 1) \<le> x * 2 ^ 52"
      by (simp add: algebra_simps)
    then have "2 ^ 52 + 1 \<le> rne (x * 2 ^ 52)" by (rule rne_ge)
    then have "(of_int (2 ^ 52 + 1) :: real) \<le> of_int (rne (x * 2 ^ 52))"
      by (simp only: of_int_le_iff)
    then have "(2 ^ 52 + 1) / 2 ^ 52 \<le> rnd x"
      unfolding r by (simp add: divide_le_cancel)
    then show ?thesis by simp
  qed
qed

text \<open>
  A quotient of two integers above 1 is at least \<open>1 + 1 / \<bar>b\<bar>\<close>: with a denominator of
  at most 52 bits the rounded quotient is at most 1 exactly when the quotient is.
\<close>

lemma rnd_quot_le_one:
  assumes "b \<noteq> 0" and "\<bar>b\<bar> \<le> 2 ^ 52"
  shows "rnd (of_int a / of_int b) \<le> 1 \<longleftrightarrow> (of_int a / of_int b :: real) \<le> 1"
proof
  assume "(of_int a / of_int b :: real) \<le> 1"
  then show "rnd (of_int a / of_int b) \<le> 1" by (rule rnd_le_one)
next
  assume le: "rnd (of_int a / of_int b) \<le> 1"
  show "(of_int a / of_int b :: real) \<le> 1"
  proof (rule ccontr)
    assume "\<not> (of_int a / of_int b :: real) \<le> 1"
    then have gt: "1 < (of_int a / of_int b :: real)" by simp
    define a' where "a' = a * sgn b"
    define b' where "b' = \<bar>b\<bar>"
    have b': "0 < b'" "b' \<le> 2 ^ 52" using assms by (simp_all add: b'_def)
    have q: "(of_int a / of_int b :: real) = of_int a' / of_int b'"
      using assms(1) by (cases "0 < b") (simp_all add: a'_def b'_def sgn_if)
    from gt have "(of_int b' :: real) < of_int a'"
      using b'(1) by (simp add: q pos_less_divide_eq)
    then have "b' + 1 \<le> a'" by simp
    then have "(of_int (b' + 1) :: real) \<le> of_int a'" by (simp only: of_int_le_iff)
    then have "(of_int b' + 1) / of_int b' \<le> (of_int a' / of_int b' :: real)"
      using b'(1) by (simp add: divide_le_cancel)
    then have s: "1 + 1 / of_int b' \<le> (of_int a' / of_int b' :: real)"
      using b'(1) by (simp add: add_divide_distrib)
    from b' have "(of_int b' :: real) \<le> of_int (2 ^ 52)" by (simp only: of_int_le_iff)
    then have "(1 / 2 ^ 52 :: real) \<le> 1 / of_int b'"
      using b'(1) by (simp add: frac_le)
    with s have "1 + 1 / 2 ^ 52 \<le> (of_int a' / of_int b' :: real)" by linarith
    then have "1 < rnd (of_int a' / of_int b')" by (rule rnd_gt_one)
    with le show False by (simp add: q)
  qed
qed

subsection \<open>The slice test on grid coordinates\<close>

text \<open>
  On coordinates of one grid the differences, the sum and the products of the slice test
  are on a grid too and small enough to be doubles, so they are not rounded; the two
  quotients are rounded, and rounding does not move a quotient of two such numbers across
  0 or across 1. So the doubles compute the exact test there.
\<close>

lemma dsub_dyadic:
  "\<bar>a - b\<bar> < 2 ^ 53 \<Longrightarrow> dsub (of_int a / 2 ^ k) (of_int b / 2 ^ k) = of_int (a - b) / 2 ^ k"
  using rnd_dyadic [of "a - b" k] by (simp add: dsub_def diff_divide_distrib)

lemma dadd_dyadic:
  "\<bar>a + b\<bar> < 2 ^ 53 \<Longrightarrow> dadd (of_int a / 2 ^ k) (of_int b / 2 ^ k) = of_int (a + b) / 2 ^ k"
  using rnd_dyadic [of "a + b" k] by (simp add: dadd_def add_divide_distrib)

lemma dmul_dyadic:
  "\<bar>a * b\<bar> < 2 ^ 53 \<Longrightarrow> dmul (of_int a / 2 ^ k) (of_int b / 2 ^ j) = of_int (a * b) / 2 ^ (k + j)"
  using rnd_dyadic [of "a * b" "k + j"] by (simp add: dmul_def power_add)

lemma int_prod_bound:
  fixes p q :: int
  assumes "\<bar>p\<bar> \<le> A" and "\<bar>q\<bar> \<le> B"
  shows "\<bar>p * q\<bar> \<le> A * B"
proof -
  have "\<bar>p * q\<bar> = \<bar>p\<bar> * \<bar>q\<bar>" by (rule abs_mult)
  also have "\<dots> \<le> A * B"
    using assms by (intro mult_mono) simp_all
  finally show ?thesis .
qed

lemma segIntersect_dyadic:
  fixes a1 b1 a2 b2 a3 b3 a4 b4 :: int
  assumes "\<bar>a1\<bar> \<le> 2 ^ 24" "\<bar>b1\<bar> \<le> 2 ^ 24" "\<bar>a2\<bar> \<le> 2 ^ 24" "\<bar>b2\<bar> \<le> 2 ^ 24"
    and "\<bar>a3\<bar> \<le> 2 ^ 24" "\<bar>b3\<bar> \<le> 2 ^ 24" "\<bar>a4\<bar> \<le> 2 ^ 24" "\<bar>b4\<bar> \<le> 2 ^ 24"
  shows "segIntersect (of_int a1 / 2 ^ k) (of_int b1 / 2 ^ k) (of_int a2 / 2 ^ k) (of_int b2 / 2 ^ k)
           (of_int a3 / 2 ^ k) (of_int b3 / 2 ^ k) (of_int a4 / 2 ^ k) (of_int b4 / 2 ^ k) =
         segIntersectExact (of_int a1 / 2 ^ k) (of_int b1 / 2 ^ k) (of_int a2 / 2 ^ k) (of_int b2 / 2 ^ k)
           (of_int a3 / 2 ^ k) (of_int b3 / 2 ^ k) (of_int a4 / 2 ^ k) (of_int b4 / 2 ^ k)"
proof -
  define p where "p = a1 - a2"
  define q where "q = b3 - b4"
  define r where "r = b1 - b2"
  define s where "s = a3 - a4"
  define v where "v = a1 - a3"
  define w where "w = b1 - b3"
  define D where "D = p * q - r * s"
  define NT where "NT = v * q - w * s"
  define NU where "NU = - (p * w - r * v)"
  have b1: "\<bar>p\<bar> \<le> 2 ^ 25" "\<bar>q\<bar> \<le> 2 ^ 25" "\<bar>r\<bar> \<le> 2 ^ 25" "\<bar>s\<bar> \<le> 2 ^ 25"
      "\<bar>v\<bar> \<le> 2 ^ 25" "\<bar>w\<bar> \<le> 2 ^ 25"
    using assms by (simp_all add: p_def q_def r_def s_def v_def w_def)
  have b2: "\<bar>p * q\<bar> \<le> 2 ^ 50" "\<bar>r * s\<bar> \<le> 2 ^ 50" "\<bar>v * q\<bar> \<le> 2 ^ 50" "\<bar>w * s\<bar> \<le> 2 ^ 50"
      "\<bar>p * w\<bar> \<le> 2 ^ 50" "\<bar>r * v\<bar> \<le> 2 ^ 50"
    using int_prod_bound [OF b1(1) b1(2)] int_prod_bound [OF b1(3) b1(4)]
      int_prod_bound [OF b1(5) b1(2)] int_prod_bound [OF b1(6) b1(4)]
      int_prod_bound [OF b1(1) b1(6)] int_prod_bound [OF b1(3) b1(5)]
    by simp_all
  have b3: "\<bar>D\<bar> \<le> 2 ^ 52" "\<bar>NT\<bar> \<le> 2 ^ 52" "\<bar>NU\<bar> \<le> 2 ^ 52"
    using b2 by (simp_all add: D_def NT_def NU_def)
  have sub: "dsub (of_int a / 2 ^ k) (of_int b / 2 ^ k) = of_int (a - b) / 2 ^ k"
    if "\<bar>a\<bar> \<le> 2 ^ 24" and "\<bar>b\<bar> \<le> 2 ^ 24" for a b :: int
    by (rule dsub_dyadic) (use that in simp)
  have mul: "dmul (of_int a / 2 ^ k) (of_int b / 2 ^ k) = of_int (a * b) / 2 ^ (k + k)"
    if "\<bar>a * b\<bar> \<le> 2 ^ 50" for a b :: int
    by (rule dmul_dyadic) (use that in simp)
  have sub2: "dsub (of_int a / 2 ^ (k + k)) (of_int b / 2 ^ (k + k)) = of_int (a - b) / 2 ^ (k + k)"
    if "\<bar>a\<bar> \<le> 2 ^ 50" and "\<bar>b\<bar> \<le> 2 ^ 50" for a b :: int
    by (rule dsub_dyadic) (use that in simp)
  have s1: "dsub (of_int a1 / 2 ^ k) (of_int a2 / 2 ^ k) = of_int p / 2 ^ k"
      "dsub (of_int b3 / 2 ^ k) (of_int b4 / 2 ^ k) = of_int q / 2 ^ k"
      "dsub (of_int b1 / 2 ^ k) (of_int b2 / 2 ^ k) = of_int r / 2 ^ k"
      "dsub (of_int a3 / 2 ^ k) (of_int a4 / 2 ^ k) = of_int s / 2 ^ k"
      "dsub (of_int a1 / 2 ^ k) (of_int a3 / 2 ^ k) = of_int v / 2 ^ k"
      "dsub (of_int b1 / 2 ^ k) (of_int b3 / 2 ^ k) = of_int w / 2 ^ k"
    unfolding p_def q_def r_def s_def v_def w_def
    by (simp_all only: sub assms)
  have dD: "dsub (dmul (of_int p / 2 ^ k) (of_int q / 2 ^ k)) (dmul (of_int r / 2 ^ k) (of_int s / 2 ^ k)) =
      of_int D / 2 ^ (k + k)"
    unfolding D_def by (simp only: mul sub2 b2)
  have dT: "dsub (dmul (of_int v / 2 ^ k) (of_int q / 2 ^ k)) (dmul (of_int w / 2 ^ k) (of_int s / 2 ^ k)) =
      of_int NT / 2 ^ (k + k)"
    unfolding NT_def by (simp only: mul sub2 b2)
  have dU: "- dsub (dmul (of_int p / 2 ^ k) (of_int w / 2 ^ k)) (dmul (of_int r / 2 ^ k) (of_int v / 2 ^ k)) =
      of_int NU / 2 ^ (k + k)"
    unfolding NU_def by (simp only: mul sub2 b2)
  have eD: "(of_int p / 2 ^ k) * (of_int q / 2 ^ k) - (of_int r / 2 ^ k) * (of_int s / 2 ^ k) =
      (of_int D / 2 ^ (k + k) :: real)"
    by (simp add: D_def power_add diff_divide_distrib)
  have eT: "(of_int v / 2 ^ k) * (of_int q / 2 ^ k) - (of_int w / 2 ^ k) * (of_int s / 2 ^ k) =
      (of_int NT / 2 ^ (k + k) :: real)"
    by (simp add: NT_def power_add diff_divide_distrib)
  have eU: "- ((of_int p / 2 ^ k) * (of_int w / 2 ^ k) - (of_int r / 2 ^ k) * (of_int v / 2 ^ k)) =
      (of_int NU / 2 ^ (k + k) :: real)"
    by (simp add: NU_def power_add diff_divide_distrib)
  have e1: "of_int a1 / 2 ^ k - of_int a2 / 2 ^ k = (of_int p / 2 ^ k :: real)"
      "of_int b3 / 2 ^ k - of_int b4 / 2 ^ k = (of_int q / 2 ^ k :: real)"
      "of_int b1 / 2 ^ k - of_int b2 / 2 ^ k = (of_int r / 2 ^ k :: real)"
      "of_int a3 / 2 ^ k - of_int a4 / 2 ^ k = (of_int s / 2 ^ k :: real)"
      "of_int a1 / 2 ^ k - of_int a3 / 2 ^ k = (of_int v / 2 ^ k :: real)"
      "of_int b1 / 2 ^ k - of_int b3 / 2 ^ k = (of_int w / 2 ^ k :: real)"
    by (simp_all add: p_def q_def r_def s_def v_def w_def diff_divide_distrib)
  have lhs: "segIntersect (of_int a1 / 2 ^ k) (of_int b1 / 2 ^ k) (of_int a2 / 2 ^ k) (of_int b2 / 2 ^ k)
           (of_int a3 / 2 ^ k) (of_int b3 / 2 ^ k) (of_int a4 / 2 ^ k) (of_int b4 / 2 ^ k) =
      (D \<noteq> 0 \<and> 0 \<le> rnd (of_int NT / of_int D) \<and> rnd (of_int NT / of_int D) \<le> 1 \<and>
         0 \<le> rnd (of_int NU / of_int D) \<and> rnd (of_int NU / of_int D) \<le> 1)"
    unfolding segIntersect_def Let_def s1 dD dT dU
    by (simp add: ddiv_def)
  have rhs: "segIntersectExact (of_int a1 / 2 ^ k) (of_int b1 / 2 ^ k) (of_int a2 / 2 ^ k) (of_int b2 / 2 ^ k)
           (of_int a3 / 2 ^ k) (of_int b3 / 2 ^ k) (of_int a4 / 2 ^ k) (of_int b4 / 2 ^ k) =
      (D \<noteq> 0 \<and> 0 \<le> (of_int NT / of_int D :: real) \<and> (of_int NT / of_int D :: real) \<le> 1 \<and>
         0 \<le> (of_int NU / of_int D :: real) \<and> (of_int NU / of_int D :: real) \<le> 1)"
    unfolding segIntersectExact_def Let_def e1 eD eT eU
    by simp
  show ?thesis
  proof (cases "D = 0")
    case True
    then show ?thesis by (simp only: lhs rhs) simp
  next
    case False
    from rnd_quot_le_one [OF False b3(1)] rnd_nonneg_iff
    show ?thesis by (simp only: lhs rhs)
  qed
qed


text \<open>
  The same for the rectangle, whose far corner is a sum of two coordinates.
\<close>

lemma gridPointE:
  assumes "gridPoint k x"
  obtains m :: int where "\<bar>m\<bar> \<le> 2 ^ 23" and "x = of_int m / 2 ^ k"
proof
  from assms have i: "of_int \<lfloor>x * 2 ^ k\<rfloor> = x * 2 ^ k" and b: "\<bar>x * 2 ^ k\<bar> \<le> 2 ^ 23"
    by (simp_all add: gridPoint_def)
  from b have "\<bar>(of_int \<lfloor>x * 2 ^ k\<rfloor> :: real)\<bar> \<le> of_int (2 ^ 23)"
    by (simp only: i) simp
  then have "(of_int \<bar>\<lfloor>x * 2 ^ k\<rfloor>\<bar> :: real) \<le> of_int (2 ^ 23)"
    by (simp only: of_int_abs)
  then show "\<bar>\<lfloor>x * 2 ^ k\<rfloor>\<bar> \<le> 2 ^ 23"
    by (simp only: of_int_le_iff)
  show "x = of_int \<lfloor>x * 2 ^ k\<rfloor> / 2 ^ k"
    by (simp only: i) simp
qed

lemma segIntersectsRect_grid:
  assumes "gridPoint k x1" "gridPoint k y1" "gridPoint k x2" "gridPoint k y2"
    and "gridPoint k rx" "gridPoint k ry" "gridPoint k rw" "gridPoint k rh"
  shows "segIntersectsRect x1 y1 x2 y2 rx ry rw rh = segIntersectsRectExact x1 y1 x2 y2 rx ry rw rh"
proof -
  from assms(1) obtain a1 :: int where a1: "\<bar>a1\<bar> \<le> 2 ^ 23" "x1 = of_int a1 / 2 ^ k" by (rule gridPointE)
  from assms(2) obtain b1 :: int where b1: "\<bar>b1\<bar> \<le> 2 ^ 23" "y1 = of_int b1 / 2 ^ k" by (rule gridPointE)
  from assms(3) obtain a2 :: int where a2: "\<bar>a2\<bar> \<le> 2 ^ 23" "x2 = of_int a2 / 2 ^ k" by (rule gridPointE)
  from assms(4) obtain b2 :: int where b2: "\<bar>b2\<bar> \<le> 2 ^ 23" "y2 = of_int b2 / 2 ^ k" by (rule gridPointE)
  from assms(5) obtain ax :: int where ax: "\<bar>ax\<bar> \<le> 2 ^ 23" "rx = of_int ax / 2 ^ k" by (rule gridPointE)
  from assms(6) obtain ay :: int where ay: "\<bar>ay\<bar> \<le> 2 ^ 23" "ry = of_int ay / 2 ^ k" by (rule gridPointE)
  from assms(7) obtain aw :: int where aw: "\<bar>aw\<bar> \<le> 2 ^ 23" "rw = of_int aw / 2 ^ k" by (rule gridPointE)
  from assms(8) obtain ah :: int where ah: "\<bar>ah\<bar> \<le> 2 ^ 23" "rh = of_int ah / 2 ^ k" by (rule gridPointE)
  have s: "\<bar>a1\<bar> \<le> 2 ^ 24" "\<bar>b1\<bar> \<le> 2 ^ 24" "\<bar>a2\<bar> \<le> 2 ^ 24" "\<bar>b2\<bar> \<le> 2 ^ 24"
      "\<bar>ax\<bar> \<le> 2 ^ 24" "\<bar>ay\<bar> \<le> 2 ^ 24" "\<bar>ax + aw\<bar> \<le> 2 ^ 24" "\<bar>ay + ah\<bar> \<le> 2 ^ 24"
    using a1(1) b1(1) a2(1) b2(1) ax(1) ay(1) aw(1) ah(1) by simp_all
  have xB: "dadd rx rw = of_int (ax + aw) / 2 ^ k"
    unfolding ax(2) aw(2) by (rule dadd_dyadic) (use s(7) in simp)
  have yB: "dadd ry rh = of_int (ay + ah) / 2 ^ k"
    unfolding ay(2) ah(2) by (rule dadd_dyadic) (use s(8) in simp)
  have xB': "rx + rw = of_int (ax + aw) / 2 ^ k"
    by (simp add: ax(2) aw(2) add_divide_distrib)
  have yB': "ry + rh = of_int (ay + ah) / 2 ^ k"
    by (simp add: ay(2) ah(2) add_divide_distrib)
  show ?thesis
    unfolding segIntersectsRect_def segIntersectsRectExact_def Let_def xB yB xB' yB'
    unfolding a1(2) b1(2) a2(2) b2(2) ax(2) ay(2)
    by (simp only: segIntersect_dyadic s)
qed

text \<open>
  Integer literals.
\<close>

lemma rnd_numeral: "numeral n < (2 ^ 53 :: int) \<Longrightarrow> rnd (numeral n) = numeral n"
  using rnd_of_int [of "numeral n"] by simp

lemma gridPoint_numeral: "numeral n \<le> (2 ^ 23 :: int) \<Longrightarrow> gridPoint 0 (numeral n)"
proof -
  assume "numeral n \<le> (2 ^ 23 :: int)"
  then have "(of_int (numeral n) :: real) \<le> of_int (2 ^ 23)" by (simp only: of_int_le_iff)
  then show ?thesis by (simp add: gridPoint_def)
qed

subsection \<open>The slice scan, slot by slot\<close>

lemma sliceTry_miss:
  "\<not> hitsSlot hid refs x1 y1 x2 y2 i \<Longrightarrow> sliceTry hid lbl cIdx refs x1 y1 x2 y2 idb i st = None"
  by (auto simp add: sliceTry_def hitsSlot_def split: option.splits rectOutcome.splits)

lemma sliceTry_hit:
  "hitsSlot hid refs x1 y1 x2 y2 i \<Longrightarrow> jsIndex refs i = Some (Some (Returns x y w h)) \<Longrightarrow>
   sliceTry hid lbl cIdx refs x1 y1 x2 y2 idb i st = Some (onHit lbl cIdx x y w h idb i st)"
  by (simp add: sliceTry_def hitsSlot_def)

lemma hitsSlot_Returns:
  assumes "hitsSlot hid refs x1 y1 x2 y2 i"
  obtains x y w h where "jsIndex refs i = Some (Some (Returns x y w h))"
  using assms by (auto simp add: hitsSlot_def split: option.splits rectOutcome.splits)

text \<open>The loop runs its three turns in the order 0, 1, 2 and leaves at the first \<^verbatim>\<open>break\<close>.\<close>

lemma sliceLoop_unroll:
  "sliceLoop hid lbl cIdx refs x1 y1 x2 y2 idb 0 st =
     (case sliceTry hid lbl cIdx refs x1 y1 x2 y2 idb 0 st of
        Some s \<Rightarrow> s
      | None \<Rightarrow>
         (case sliceTry hid lbl cIdx refs x1 y1 x2 y2 idb 1 st of
            Some s \<Rightarrow> s
          | None \<Rightarrow>
             (case sliceTry hid lbl cIdx refs x1 y1 x2 y2 idb 2 st of
                Some s \<Rightarrow> s
              | None \<Rightarrow> st)))"
proof -
  have three: "sliceLoop hid lbl cIdx refs x1 y1 x2 y2 idb (Suc (Suc (Suc 0))) st = st"
    by (subst sliceLoop.simps) (simp add: FRUIT_COUNT_def)
  have two: "sliceLoop hid lbl cIdx refs x1 y1 x2 y2 idb (Suc (Suc 0)) st =
      (case sliceTry hid lbl cIdx refs x1 y1 x2 y2 idb (Suc (Suc 0)) st of
         Some s \<Rightarrow> s | None \<Rightarrow> st)"
    by (subst sliceLoop.simps) (simp add: FRUIT_COUNT_def three cong: option.case_cong)
  have one: "sliceLoop hid lbl cIdx refs x1 y1 x2 y2 idb (Suc 0) st =
      (case sliceTry hid lbl cIdx refs x1 y1 x2 y2 idb (Suc 0) st of
         Some s \<Rightarrow> s
       | None \<Rightarrow>
          (case sliceTry hid lbl cIdx refs x1 y1 x2 y2 idb (Suc (Suc 0)) st of
             Some s \<Rightarrow> s | None \<Rightarrow> st))"
    by (subst sliceLoop.simps) (simp add: FRUIT_COUNT_def two cong: option.case_cong)
  show ?thesis
    by (subst sliceLoop.simps)
      (simp add: FRUIT_COUNT_def one numeral_2_eq_2 cong: option.case_cong)
qed

lemma upt_FRUIT_COUNT: "[0..<FRUIT_COUNT] = [0, 1, 2]"
  by (simp add: FRUIT_COUNT_def upt_rec)

lemma find_hit:
  "find (hitsSlot hid refs x1 y1 x2 y2) [0..<FRUIT_COUNT] = Some i \<Longrightarrow>
   i < FRUIT_COUNT \<and> hitsSlot hid refs x1 y1 x2 y2 i"
  by (auto simp add: find_Some_iff)

text \<open>
  The handler as a search: nothing happens when the game is over or no slot is hit, and
  otherwise the body of the \<^verbatim>\<open>if\<close> runs once, for the first slot that is hit.
\<close>

lemma mirrorsOf_sel:
  "gameOverRef (mirrorsOf st) = gameOver st" "hiddenRef (mirrorsOf st) = hidden st"
  "labelsRef (mirrorsOf st) = labels st" "correctIdxRef (mirrorsOf st) = correctIdx st"
  by (simp_all add: mirrorsOf_def)

lemma jsHandleSlice_game_over: "gameOverRef m \<Longrightarrow> jsHandleSlice m st refs x1 y1 x2 y2 idb = st"
  by (simp add: jsHandleSlice_def)

lemma jsHandleSlice_no_hit:
  assumes "find (hitsSlot (hiddenRef m) refs x1 y1 x2 y2) [0..<FRUIT_COUNT] = None"
  shows "jsHandleSlice m st refs x1 y1 x2 y2 idb = st"
  using assms
  by (simp add: jsHandleSlice_def sliceLoop_unroll upt_FRUIT_COUNT sliceTry_miss
      split: if_splits)

lemma jsHandleSlice_first_hit:
  assumes "\<not> gameOverRef m"
    and "find (hitsSlot (hiddenRef m) refs x1 y1 x2 y2) [0..<FRUIT_COUNT] = Some i"
    and "jsIndex refs i = Some (Some (Returns x y w h))"
  shows "jsHandleSlice m st refs x1 y1 x2 y2 idb =
           onHit (labelsRef m) (correctIdxRef m) x y w h idb i st"
  using assms
  by (auto simp add: jsHandleSlice_def sliceLoop_unroll upt_FRUIT_COUNT sliceTry_miss sliceTry_hit
      split: if_splits)

text \<open>What the body of the \<^verbatim>\<open>if\<close> does to each part of the state.\<close>

lemma hidden_onHit: "hidden (onHit lbl cIdx x y w h idb i st) = setTrue (hidden st) i"
  by (simp add: onHit_def spawnHalves_def Let_def)

lemma halves_onHit:
  "halves (onHit lbl cIdx x y w h idb i st) =
     halves (spawnHalves (dadd x (ddiv w 2)) (dadd y (ddiv h 2))
       (case jsIndex lbl i of None \<Rightarrow> [] | Some s \<Rightarrow> s) idb st)"
  by (simp add: onHit_def spawnHalves_def Let_def)

lemma timers_onHit: "timers (onHit lbl cIdx x y w h idb i st) = timers st @ [200]"
  by (simp add: onHit_def spawnHalves_def Let_def)

lemma onHit_correct:
  "int i = cIdx \<Longrightarrow>
   score (onHit lbl cIdx x y w h idb i st) = score st + 1 \<and>
   lives (onHit lbl cIdx x y w h idb i st) = lives st \<and>
   gameOver (onHit lbl cIdx x y w h idb i st) = gameOver st"
  by (simp add: onHit_def spawnHalves_def Let_def)

lemma onHit_wrong:
  "int i \<noteq> cIdx \<Longrightarrow>
   score (onHit lbl cIdx x y w h idb i st) = score st \<and>
   lives (onHit lbl cIdx x y w h idb i st) = (if lives st - 1 \<le> 0 then 0 else lives st - 1) \<and>
   gameOver (onHit lbl cIdx x y w h idb i st) = (lives st - 1 \<le> 0 \<or> gameOver st)"
  by (simp add: onHit_def spawnHalves_def Let_def)

lemma jsIndex_setTrue: "jsIndex (setTrue xs i) i = Some True"
  by (simp add: jsIndex_def setTrue_def nth_append)

lemma split_no_sep: "c \<notin> set r \<Longrightarrow> split c r = [r]"
  by (induction r) auto

lemma split_one_sep: "c \<notin> set l \<Longrightarrow> c \<notin> set r \<Longrightarrow> split c (l @ c # r) = [l, r]"
  by (induction l) (auto simp add: split_no_sep)

text \<open>A handle that raises counts as a handle that is not there.\<close>

lemma sliceTry_null_ref:
  assumes "jsIndex refs i = Some (Some Raises)"
  shows "sliceTry hid lbl cIdx (refs[i := None]) x1 y1 x2 y2 idb k st =
         sliceTry hid lbl cIdx refs x1 y1 x2 y2 idb k st"
  using assms by (cases "k = i") (auto simp add: sliceTry_def jsIndex_def split: if_splits)

text \<open>
  Slices of the sample wave. Its coordinates are integers, so the doubles compute the
  exact test.
\<close>

lemmas sample_slice =
  upt_FRUIT_COUNT hitsSlot_def jsIndex_def sampleRefs_def sampleSession_def rect_def
  FRUIT_W_def FRUIT_H_def dsub_def dadd_def rnd_numeral
  segIntersectsRect_grid [where k = 0] gridPoint_numeral
  segIntersectsRectExact_def segIntersectExact_def Let_def

lemma sample_not_over: "\<not> gameOver sampleSession"
  by (simp add: sampleSession_def)

lemma sample_hit_1:
  "find (hitsSlot (hidden sampleSession) sampleRefs 210 340 250 340) [0..<FRUIT_COUNT] = Some 1"
  by (simp add: sample_slice)

lemma sample_hit_1_and_2:
  "hitsSlot (hidden sampleSession) sampleRefs 210 340 450 340 1 \<and>
   hitsSlot (hidden sampleSession) sampleRefs 210 340 450 340 2 \<and>
   find (hitsSlot (hidden sampleSession) sampleRefs 210 340 450 340) [0..<FRUIT_COUNT] = Some 1"
  by (simp add: sample_slice)

lemma sample_last_life_hit_0:
  "find (hitsSlot (hidden (sampleSession\<lparr>lives := 1\<rparr>)) sampleRefs 10 340 40 340)
     [0..<FRUIT_COUNT] = Some 0"
  by (simp add: sample_slice)

lemma sample_raise_hit_1:
  "find (hitsSlot (hidden sampleSession) (sampleRefs[0 := Some Raises]) 10 340 250 340)
     [0..<FRUIT_COUNT] = Some 1"
  by (simp add: sample_slice)

subsection \<open>The labels of a wave\<close>

text \<open>
  A printed number is made of digits, with a minus sign in front when it is negative: it is
  not empty, and has no "=" and no white space in it.
\<close>

lemma digitChar_digit: "k < 10 \<Longrightarrow> digitChar k \<in> set ''0123456789''"
  unfolding digitChar_def by (rule nth_mem) simp

lemma natToString_digits: "set (natToString n) \<subseteq> set ''0123456789''"
proof (induction n rule: natToString.induct)
  case (1 n)
  show ?case
  proof (cases "n < 10")
    case True
    then show ?thesis
      using digitChar_digit [of n] by (subst natToString.simps) simp
  next
    case False
    have "digitChar (n mod 10) \<in> set ''0123456789''"
      by (rule digitChar_digit) simp
    with False "1.IH" show ?thesis
      by (subst natToString.simps) simp
  qed
qed

lemma natToString_not_empty: "natToString n \<noteq> []"
  by (subst natToString.simps) simp

lemma digits_plain:
  "list_all (\<lambda>c. c \<noteq> CHR ''='' \<and> \<not> isWhiteSpace c) ''0123456789''"
  by (simp add: isWhiteSpace_def)

lemma digit_plain:
  assumes "c \<in> set ''0123456789''"
  shows "c \<noteq> CHR ''='' \<and> \<not> isWhiteSpace c"
  using digits_plain assms unfolding list_all_iff by (rule bspec)

lemma numToString_plain:
  assumes "c \<in> set (numToString v)"
  shows "c \<noteq> CHR ''='' \<and> \<not> isWhiteSpace c"
proof (cases "v < 0")
  case True
  with assms have "c = CHR ''-'' \<or> c \<in> set (natToString (nat (- v)))"
    by (simp add: numToString_def)
  then show ?thesis
  proof
    assume "c = CHR ''-''"
    then show ?thesis by (simp add: isWhiteSpace_def)
  next
    assume "c \<in> set (natToString (nat (- v)))"
    with natToString_digits have "c \<in> set ''0123456789''" by (rule subsetD)
    then show ?thesis by (rule digit_plain)
  qed
next
  case False
  with assms have "c \<in> set (natToString (nat v))"
    by (simp add: numToString_def)
  with natToString_digits have "c \<in> set ''0123456789''" by (rule subsetD)
  then show ?thesis by (rule digit_plain)
qed

lemma numToString_not_empty: "numToString v \<noteq> []"
  by (simp add: numToString_def natToString_not_empty)

lemma numToString_hd: "\<not> isWhiteSpace (hd (numToString v))"
  using numToString_not_empty [of v] numToString_plain [of "hd (numToString v)" v]
  by simp

lemma numToString_last: "\<not> isWhiteSpace (last (numToString v))"
  using numToString_not_empty [of v] numToString_plain [of "last (numToString v)" v]
  by simp

text \<open>
  Trimming takes the one blank off each side of the "=" of a label.
\<close>

lemma dropWhile_plain_head:
  assumes "s \<noteq> []" and "\<not> P (hd s)"
  shows "dropWhile P s = s"
  using assms by (cases s) simp_all

lemma dropWhile_rev_plain_last:
  assumes "s \<noteq> []" and "\<not> P (last s)"
  shows "dropWhile P (rev s) = rev s"
  using assms by (cases s rule: rev_cases) simp_all

lemma trim_wave_left:
  "trim (numToString a @ '' + '' @ numToString b @ '' '') = numToString a @ '' + '' @ numToString b"
proof -
  define s where "s = numToString a @ '' + '' @ numToString b"
  have ne: "s \<noteq> []"
    using numToString_not_empty [of a] by (simp add: s_def)
  have "hd s = hd (numToString a)"
    using numToString_not_empty [of a] by (simp add: s_def)
  then have h: "\<not> isWhiteSpace (hd s)"
    by (simp add: numToString_hd)
  have "last s = last (numToString b)"
    using numToString_not_empty [of b] by (simp add: s_def)
  then have l: "\<not> isWhiteSpace (last s)"
    by (simp add: numToString_last)
  have ne': "s @ '' '' \<noteq> []" by simp
  have h': "\<not> isWhiteSpace (hd (s @ '' ''))"
    using ne h by simp
  have front: "dropWhile isWhiteSpace (s @ '' '') = s @ '' ''"
    using ne' h' by (rule dropWhile_plain_head)
  have "dropWhile isWhiteSpace (rev (s @ '' '')) = dropWhile isWhiteSpace (rev s)"
    by (simp add: isWhiteSpace_def)
  also have "\<dots> = rev s"
    using ne l by (rule dropWhile_rev_plain_last)
  finally have rear: "dropWhile isWhiteSpace (rev (s @ '' '')) = rev s" .
  have "trim (s @ '' '') = s"
    unfolding trim_def front rear by simp
  then show ?thesis by (simp add: s_def)
qed

lemma trim_wave_right: "trim ('' '' @ numToString v) = numToString v"
proof -
  have "dropWhile isWhiteSpace ('' '' @ numToString v) = dropWhile isWhiteSpace (numToString v)"
    by (simp add: isWhiteSpace_def)
  also have "\<dots> = numToString v"
    using numToString_not_empty numToString_hd by (rule dropWhile_plain_head)
  finally have front: "dropWhile isWhiteSpace ('' '' @ numToString v) = numToString v" .
  have rear: "dropWhile isWhiteSpace (rev (numToString v)) = rev (numToString v)"
    using numToString_not_empty numToString_last by (rule dropWhile_rev_plain_last)
  show ?thesis unfolding trim_def front rear by simp
qed

text \<open>
  Every label that \<^verbatim>\<open>buildWave\<close> renders has one "="; slicing its bubble spawns the halves
  \<open>a + b\<close> and \<open>v\<close>.
\<close>

lemma waveLabel_parts:
  "waveLabel a b v =
     (numToString a @ '' + '' @ numToString b @ '' '') @ CHR ''='' # ('' '' @ numToString v) \<and>
   CHR ''='' \<notin> set (numToString a @ '' + '' @ numToString b @ '' '') \<and>
   CHR ''='' \<notin> set ('' '' @ numToString v)"
proof -
  have no_eq: "CHR ''='' \<notin> set (numToString n)" for n
    using numToString_plain [of "CHR ''=''" n] by blast
  show ?thesis
    by (simp add: waveLabel_def no_eq)
qed

lemma spawnHalves_waveLabel:
  "halves (spawnHalves cx cy (waveLabel a b v) idb st) =
     halves st @
       [\<lparr>id_half = idb, left_half = True, x_half = dsub cx 20, y_half = cy,
         leftText = numToString a @ '' + '' @ numToString b, rightText = numToString v\<rparr>,
        \<lparr>id_half = idb + 1, left_half = False, x_half = dadd cx 20, y_half = cy,
         leftText = numToString a @ '' + '' @ numToString b, rightText = numToString v\<rparr>]"
proof -
  let ?l = "numToString a @ '' + '' @ numToString b @ '' ''"
  let ?r = "'' '' @ numToString v"
  from waveLabel_parts [of a b v]
  have lbl: "waveLabel a b v = ?l @ CHR ''='' # ?r"
    and l: "CHR ''='' \<notin> set ?l" and r: "CHR ''='' \<notin> set ?r"
    by blast+
  from l r have parts: "split CHR ''='' (?l @ CHR ''='' # ?r) = [?l, ?r]"
    by (rule split_one_sep)
  have first: "jsIndex [?l, ?r] 0 = Some ?l" and second: "jsIndex [?l, ?r] 1 = Some ?r"
    by (simp_all add: jsIndex_def)
  have left: "trim ?l = numToString a @ '' + '' @ numToString b"
    by (rule trim_wave_left)
  have right: "trim ?r = numToString v"
    by (rule trim_wave_right)
  show ?thesis
    unfolding spawnHalves_def lbl parts Let_def first second option.case left right
    by simp
qed

subsection \<open>Slicing a bubble\<close>

text \<open>
  C2: while the session is playing, when the first slot the segment hits is the
  non-hidden correct-answer bubble \<open>i\<close>, whose label reads \<open>l\<close> to the left of its
  one "=" and \<open>r\<close> to the right of it, the score grows by exactly 1, lives and gameOver
  stay as they were, bubble \<open>i\<close> becomes hidden, and exactly two halves are appended:
  a left one rendered with the trimmed \<open>l\<close> and a right one rendered with the trimmed \<open>r\<close>.
  The slice comes on the committed state \<open>st\<close>: the refs hold \<open>mirrorsOf st\<close>.
\<close>

theorem slice_correct_bubble:
  assumes "\<not> gameOver st"
    and "find (hitsSlot (hidden st) refs x1 y1 x2 y2) [0..<FRUIT_COUNT] = Some i"
    and "int i = correctIdx st"
    and "jsIndex (labels st) i = Some (l @ CHR ''='' # r)"
    and "CHR ''='' \<notin> set l" and "CHR ''='' \<notin> set r"
  shows "\<exists>hL hR.
           score (jsHandleSlice (mirrorsOf st) st refs x1 y1 x2 y2 idb) = score st + 1 \<and>
           lives (jsHandleSlice (mirrorsOf st) st refs x1 y1 x2 y2 idb) = lives st \<and>
           gameOver (jsHandleSlice (mirrorsOf st) st refs x1 y1 x2 y2 idb) = gameOver st \<and>
           jsIndex (hidden (jsHandleSlice (mirrorsOf st) st refs x1 y1 x2 y2 idb)) i = Some True \<and>
           halves (jsHandleSlice (mirrorsOf st) st refs x1 y1 x2 y2 idb) = halves st @ [hL, hR] \<and>
           left_half hL \<and> \<not> left_half hR \<and>
           halfLabel hL = trim l \<and> halfLabel hR = trim r"
proof -
  from assms(2) have hit: "hitsSlot (hidden st) refs x1 y1 x2 y2 i"
    by (rule find_hit [THEN conjunct2])
  then obtain x y w h where ref: "jsIndex refs i = Some (Some (Returns x y w h))"
    by (rule hitsSlot_Returns)
  have eq: "jsHandleSlice (mirrorsOf st) st refs x1 y1 x2 y2 idb =
      onHit (labels st) (correctIdx st) x y w h idb i st"
    using jsHandleSlice_first_hit [where m = "mirrorsOf st" and st = st and idb = idb] assms(1,2) ref
    by (simp add: mirrorsOf_sel)
  have parts: "split CHR ''='' (l @ CHR ''='' # r) = [l, r]"
    using assms(5,6) by (rule split_one_sep)
  have lbl: "(case jsIndex (labels st) i of None \<Rightarrow> [] | Some s \<Rightarrow> s) = l @ CHR ''='' # r"
    using assms(4) by simp
  define hL where "hL = \<lparr>id_half = idb, left_half = True,
    x_half = dsub (dadd x (ddiv w 2)) 20, y_half = dadd y (ddiv h 2),
    leftText = trim l, rightText = trim r\<rparr>"
  define hR where "hR = \<lparr>id_half = idb + 1, left_half = False,
    x_half = dadd (dadd x (ddiv w 2)) 20, y_half = dadd y (ddiv h 2),
    leftText = trim l, rightText = trim r\<rparr>"
  have spawned: "halves (jsHandleSlice (mirrorsOf st) st refs x1 y1 x2 y2 idb) = halves st @ [hL, hR]"
    unfolding eq halves_onHit lbl
    by (simp add: spawnHalves_def Let_def parts jsIndex_def hL_def hR_def)
  have texts: "left_half hL \<and> \<not> left_half hR \<and> halfLabel hL = trim l \<and> halfLabel hR = trim r"
    by (simp add: hL_def hR_def halfLabel_def)
  have counters: "score (jsHandleSlice (mirrorsOf st) st refs x1 y1 x2 y2 idb) = score st + 1 \<and>
      lives (jsHandleSlice (mirrorsOf st) st refs x1 y1 x2 y2 idb) = lives st \<and>
      gameOver (jsHandleSlice (mirrorsOf st) st refs x1 y1 x2 y2 idb) = gameOver st"
    unfolding eq using assms(3) by (rule onHit_correct)
  have flag: "jsIndex (hidden (jsHandleSlice (mirrorsOf st) st refs x1 y1 x2 y2 idb)) i = Some True"
    unfolding eq hidden_onHit by (rule jsIndex_setTrue)
  from spawned texts counters flag show ?thesis by blast
qed

theorem slice_correct_bubble_witness:
  "\<not> gameOver sampleSession \<and>
   find (hitsSlot (hidden sampleSession) sampleRefs 210 340 250 340) [0..<FRUIT_COUNT] = Some 1 \<and>
   int 1 = correctIdx sampleSession \<and>
   jsIndex (labels sampleSession) 1 = Some (''3 + 4 '' @ CHR ''='' # '' 7'') \<and>
   CHR ''='' \<notin> set ''3 + 4 '' \<and> CHR ''='' \<notin> set '' 7'' \<and>
   (\<exists>hL hR.
      score (jsHandleSlice (mirrorsOf sampleSession) sampleSession sampleRefs 210 340 250 340 1000) = 1 \<and>
      lives (jsHandleSlice (mirrorsOf sampleSession) sampleSession sampleRefs 210 340 250 340 1000) = 3 \<and>
      gameOver (jsHandleSlice (mirrorsOf sampleSession) sampleSession sampleRefs 210 340 250 340 1000) = False \<and>
      jsIndex (hidden (jsHandleSlice (mirrorsOf sampleSession) sampleSession sampleRefs 210 340 250 340 1000)) 1 = Some True \<and>
      halves (jsHandleSlice (mirrorsOf sampleSession) sampleSession sampleRefs 210 340 250 340 1000) = [hL, hR] \<and>
      left_half hL \<and> \<not> left_half hR \<and>
      halfLabel hL = ''3 + 4'' \<and> halfLabel hR = ''7'')"
proof -
  have h3: "int 1 = correctIdx sampleSession"
    by (simp add: sampleSession_def)
  have h4: "jsIndex (labels sampleSession) 1 = Some (''3 + 4 '' @ CHR ''='' # '' 7'')"
    by (simp add: sampleSession_def jsIndex_def)
  have h5: "CHR ''='' \<notin> set ''3 + 4 ''" by simp
  have h6: "CHR ''='' \<notin> set '' 7''" by simp
  have t: "trim ''3 + 4 '' = ''3 + 4''" "trim '' 7'' = ''7''"
    by (simp_all add: trim_def isWhiteSpace_def)
  have s: "score sampleSession = 0" "lives sampleSession = 3" "halves sampleSession = []"
    by (simp_all add: sampleSession_def)
  note slice_correct_bubble [OF sample_not_over sample_hit_1 h3 h4 h5 h6, of 1000, unfolded t s]
  with sample_not_over sample_hit_1 h3 h4 h5 h6 show ?thesis by simp
qed

text \<open>
  C3, as the code behaves: while the session is playing with one life left, when the
  first slot the segment hits is a non-hidden incorrect bubble, lives becomes 0 and
  gameOver becomes true, and the handler still appends the 200 ms next-wave timer: the
  \<^verbatim>\<open>setTimeout\<close> call follows the \<^verbatim>\<open>if\<close>/\<^verbatim>\<open>else\<close> and no branch skips it.
  The slice comes on the committed state \<open>st\<close>.
\<close>

theorem slice_wrong_bubble_last_life:
  assumes "\<not> gameOver st"
    and "lives st = 1"
    and "find (hitsSlot (hidden st) refs x1 y1 x2 y2) [0..<FRUIT_COUNT] = Some i"
    and "int i \<noteq> correctIdx st"
  shows "lives (jsHandleSlice (mirrorsOf st) st refs x1 y1 x2 y2 idb) = 0 \<and>
         gameOver (jsHandleSlice (mirrorsOf st) st refs x1 y1 x2 y2 idb) \<and>
         timers (jsHandleSlice (mirrorsOf st) st refs x1 y1 x2 y2 idb) = timers st @ [200]"
proof -
  from assms(3) have hit: "hitsSlot (hidden st) refs x1 y1 x2 y2 i"
    by (rule find_hit [THEN conjunct2])
  then obtain x y w h where ref: "jsIndex refs i = Some (Some (Returns x y w h))"
    by (rule hitsSlot_Returns)
  have eq: "jsHandleSlice (mirrorsOf st) st refs x1 y1 x2 y2 idb =
      onHit (labels st) (correctIdx st) x y w h idb i st"
    using jsHandleSlice_first_hit [where m = "mirrorsOf st" and st = st and idb = idb] assms(1,3) ref
    by (simp add: mirrorsOf_sel)
  show ?thesis
    unfolding eq using assms(2,4) by (simp add: onHit_wrong timers_onHit)
qed

theorem slice_wrong_bubble_last_life_witness:
  "\<not> gameOver (sampleSession\<lparr>lives := 1\<rparr>) \<and>
   lives (sampleSession\<lparr>lives := 1\<rparr>) = 1 \<and>
   find (hitsSlot (hidden (sampleSession\<lparr>lives := 1\<rparr>)) sampleRefs 10 340 40 340)
     [0..<FRUIT_COUNT] = Some 0 \<and>
   int 0 \<noteq> correctIdx (sampleSession\<lparr>lives := 1\<rparr>) \<and>
   lives (jsHandleSlice (mirrorsOf (sampleSession\<lparr>lives := 1\<rparr>)) (sampleSession\<lparr>lives := 1\<rparr>) sampleRefs 10 340 40 340 1000) = 0 \<and>
   gameOver (jsHandleSlice (mirrorsOf (sampleSession\<lparr>lives := 1\<rparr>)) (sampleSession\<lparr>lives := 1\<rparr>) sampleRefs 10 340 40 340 1000) \<and>
   timers (jsHandleSlice (mirrorsOf (sampleSession\<lparr>lives := 1\<rparr>)) (sampleSession\<lparr>lives := 1\<rparr>) sampleRefs 10 340 40 340 1000) = [200]"
proof -
  have h1: "\<not> gameOver (sampleSession\<lparr>lives := 1\<rparr>)" by (simp add: sampleSession_def)
  have h2: "lives (sampleSession\<lparr>lives := 1\<rparr>) = 1" by simp
  have h4: "int 0 \<noteq> correctIdx (sampleSession\<lparr>lives := 1\<rparr>)" by (simp add: sampleSession_def)
  have s: "timers (sampleSession\<lparr>lives := 1\<rparr>) = []" by (simp add: sampleSession_def)
  from slice_wrong_bubble_last_life [OF h1 h2 sample_last_life_hit_0 h4, of 1000]
    h1 h2 sample_last_life_hit_0 h4 s
  show ?thesis by simp
qed

text \<open>
  C7: one call of the handler slices at most one bubble, whatever the refs hold. When
  the game is over or the segment hits no slot the call changes nothing; otherwise it
  runs the body of the hit once, for the first slot, in the order 0, 1, 2, that is not
  hidden and whose padded rectangle the segment meets, and the hidden flags after the
  call are the flags before it with the flag of that one slot set. Game over and hidden
  are what the handler reads, \<^verbatim>\<open>gameOverRef\<close> and \<^verbatim>\<open>hiddenRef\<close>; on a committed
  state they are \<open>gameOver st\<close> and \<open>hidden st\<close>.
\<close>

theorem jsHandleSlice_slices_lowest_hit:
  "jsHandleSlice m st refs x1 y1 x2 y2 idb =
     (if gameOverRef m then st
      else case find (hitsSlot (hiddenRef m) refs x1 y1 x2 y2) [0..<FRUIT_COUNT] of
             None \<Rightarrow> st
           | Some i \<Rightarrow>
               (case jsIndex refs i of
                  Some (Some (Returns x y w h)) \<Rightarrow>
                    onHit (labelsRef m) (correctIdxRef m) x y w h idb i st
                | _ \<Rightarrow> st)) \<and>
   hidden (jsHandleSlice m st refs x1 y1 x2 y2 idb) =
     (if gameOverRef m then hidden st
      else case find (hitsSlot (hiddenRef m) refs x1 y1 x2 y2) [0..<FRUIT_COUNT] of
             None \<Rightarrow> hidden st
           | Some i \<Rightarrow> setTrue (hidden st) i)"
proof (cases "gameOverRef m")
  case True
  then show ?thesis by (simp add: jsHandleSlice_def)
next
  case False
  show ?thesis
  proof (cases "find (hitsSlot (hiddenRef m) refs x1 y1 x2 y2) [0..<FRUIT_COUNT]")
    case None
    then show ?thesis using False by (simp add: jsHandleSlice_no_hit)
  next
    case (Some i)
    then have "hitsSlot (hiddenRef m) refs x1 y1 x2 y2 i"
      by (rule find_hit [THEN conjunct2])
    then obtain x y w h where "jsIndex refs i = Some (Some (Returns x y w h))"
      by (rule hitsSlot_Returns)
    with False Some show ?thesis
      by (simp add: jsHandleSlice_first_hit hidden_onHit)
  qed
qed

theorem jsHandleSlice_slices_lowest_hit_witness:
  "hitsSlot (hidden sampleSession) sampleRefs 210 340 450 340 1 \<and>
   hitsSlot (hidden sampleSession) sampleRefs 210 340 450 340 2 \<and>
   hidden (jsHandleSlice (mirrorsOf sampleSession) sampleSession sampleRefs 210 340 450 340 1000) =
     [False, True, False]"
proof -
  from jsHandleSlice_slices_lowest_hit [of "mirrorsOf sampleSession" sampleSession sampleRefs
      210 340 450 340 1000, THEN conjunct2] sample_hit_1_and_2 sample_not_over
  have "hidden (jsHandleSlice (mirrorsOf sampleSession) sampleSession sampleRefs
      210 340 450 340 1000) = [False, True, False]"
    by (simp add: mirrorsOf_sel setTrue_def sampleSession_def)
  with sample_hit_1_and_2 show ?thesis by simp
qed

text \<open>
  C9: when \<^verbatim>\<open>rect()\<close> of the bubble in slot \<open>i\<close> raises, the \<^verbatim>\<open>try\<close> block of that
  slot ends without a \<^verbatim>\<open>break\<close> and without a change of state, the loop goes on with
  slot \<open>i + 1\<close>, and the whole call does what it does when slot \<open>i\<close> has no handle.
\<close>

theorem rect_exception_is_miss:
  assumes "i < FRUIT_COUNT" and "jsIndex refs i = Some (Some Raises)"
  shows "sliceTry hid lbl cIdx refs x1 y1 x2 y2 idb i st = None \<and>
         sliceLoop hid lbl cIdx refs x1 y1 x2 y2 idb i st =
           sliceLoop hid lbl cIdx refs x1 y1 x2 y2 idb (i + 1) st \<and>
         jsHandleSlice m st refs x1 y1 x2 y2 idb =
           jsHandleSlice m st (refs[i := None]) x1 y1 x2 y2 idb"
proof -
  have miss: "sliceTry hid lbl cIdx refs x1 y1 x2 y2 idb i st = None"
    using assms(2) by (simp add: sliceTry_def)
  have next_slot: "sliceLoop hid lbl cIdx refs x1 y1 x2 y2 idb i st =
      sliceLoop hid lbl cIdx refs x1 y1 x2 y2 idb (i + 1) st"
    using assms(1) miss by (subst sliceLoop.simps) simp
  have same: "jsHandleSlice m st refs x1 y1 x2 y2 idb =
      jsHandleSlice m st (refs[i := None]) x1 y1 x2 y2 idb"
    using assms(2)
    by (simp add: jsHandleSlice_def sliceLoop_unroll sliceTry_null_ref cong: option.case_cong)
  from miss next_slot same show ?thesis by simp
qed

theorem rect_exception_is_miss_witness:
  "0 < FRUIT_COUNT \<and>
   jsIndex (sampleRefs[0 := Some Raises]) 0 = Some (Some Raises) \<and>
   hitsSlot (hidden sampleSession) sampleRefs 10 340 250 340 0 \<and>
   sliceTry (hidden sampleSession) (labels sampleSession) (correctIdx sampleSession)
     (sampleRefs[0 := Some Raises]) 10 340 250 340 1000 0 sampleSession = None \<and>
   sliceLoop (hidden sampleSession) (labels sampleSession) (correctIdx sampleSession)
     (sampleRefs[0 := Some Raises]) 10 340 250 340 1000 0 sampleSession =
   sliceLoop (hidden sampleSession) (labels sampleSession) (correctIdx sampleSession)
     (sampleRefs[0 := Some Raises]) 10 340 250 340 1000 1 sampleSession \<and>
   jsHandleSlice (mirrorsOf sampleSession) sampleSession (sampleRefs[0 := Some Raises]) 10 340 250 340 1000 =
   jsHandleSlice (mirrorsOf sampleSession) sampleSession (sampleRefs[0 := None]) 10 340 250 340 1000 \<and>
   hidden (jsHandleSlice (mirrorsOf sampleSession) sampleSession (sampleRefs[0 := Some Raises]) 10 340 250 340 1000) =
     [False, True, False]"
proof -
  have h1: "0 < FRUIT_COUNT" by (simp add: FRUIT_COUNT_def)
  have h2: "jsIndex (sampleRefs[0 := Some Raises]) 0 = Some (Some Raises)"
    by (simp add: jsIndex_def sampleRefs_def)
  have h3: "hitsSlot (hidden sampleSession) sampleRefs 10 340 250 340 0"
    by (simp add: sample_slice)
  obtain x y w h where r: "jsIndex (sampleRefs[0 := Some Raises]) 1 = Some (Some (Returns x y w h))"
    by (simp add: jsIndex_def sampleRefs_def rect_def)
  have hid: "hidden (jsHandleSlice (mirrorsOf sampleSession) sampleSession (sampleRefs[0 := Some Raises]) 10 340 250 340 1000) =
      [False, True, False]"
    using jsHandleSlice_first_hit [where m = "mirrorsOf sampleSession" and st = sampleSession
        and idb = 1000, OF _ _ r] sample_not_over sample_raise_hit_1
    by (simp add: mirrorsOf_sel hidden_onHit setTrue_def sampleSession_def)
  from rect_exception_is_miss [OF h1 h2, where hid = "hidden sampleSession"
      and lbl = "labels sampleSession" and cIdx = "correctIdx sampleSession"
      and ?x1.0 = 10 and ?y1.0 = 340 and ?x2.0 = 250 and ?y2.0 = 340 and idb = 1000
      and st = sampleSession and m = "mirrorsOf sampleSession"] h1 h2 h3 hid
  show ?thesis by simp
qed

subsection \<open>The wave generator\<close>

text \<open>
  The pool is a set: adding keeps it free of repetitions.
\<close>

lemma distinct_setAdd: "distinct pool \<Longrightarrow> distinct (setAdd pool v)"
  by (simp add: setAdd_def)

lemma set_setAdd: "set (setAdd pool v) = insert v (set pool)"
  by (auto simp add: setAdd_def)

lemma length_setAdd: "length (setAdd pool v) \<le> Suc (length pool)"
  by (simp add: setAdd_def)

text \<open>
  When the \<^verbatim>\<open>while\<close> loop returns, the pool holds exactly \<open>FRUIT_COUNT\<close> distinct values,
  \<open>correct\<close> among them, and the draws left are a part of the draws given.
\<close>

lemma poolLoop_Some:
  assumes "poolLoop c pool rs = Some (pool', rs')"
    and "distinct pool" and "c \<in> set pool" and "length pool \<le> FRUIT_COUNT"
  shows "distinct pool' \<and> c \<in> set pool' \<and> length pool' = FRUIT_COUNT"
  using assms
proof (induction rs arbitrary: pool)
  case Nil
  then show ?case by (simp split: if_splits)
next
  case (Cons r rs)
  show ?case
  proof (cases "length pool < FRUIT_COUNT")
    case True
    let ?delta = "\<lfloor>r * 5\<rfloor> - 2"
    let ?cand = "c + ?delta + (if ?delta = 0 then 1 else 0)"
    from Cons.prems(1) True have "poolLoop c (setAdd pool ?cand) rs = Some (pool', rs')"
      by (simp add: Let_def)
    moreover have "distinct (setAdd pool ?cand)"
      using Cons.prems(2) by (rule distinct_setAdd)
    moreover have "c \<in> set (setAdd pool ?cand)"
      using Cons.prems(3) by (simp add: set_setAdd)
    moreover have "length (setAdd pool ?cand) \<le> FRUIT_COUNT"
      using True length_setAdd [of pool ?cand] by simp
    ultimately show ?thesis by (rule Cons.IH)
  next
    case False
    with Cons.prems show ?thesis by simp
  qed
qed

lemma poolLoop_rest:
  "poolLoop c pool rs = Some (pool', rs') \<Longrightarrow> list_all P rs \<Longrightarrow> list_all P rs'"
  by (induction rs arbitrary: pool) (auto simp add: Let_def split: if_splits)

text \<open>
  With a valid draw the index \<open>j\<close> of the shuffle is at most \<open>i\<close>, so each turn swaps two
  cells of the array and the shuffle permutes it.
\<close>

lemma draw_index_le:
  assumes "validDraw r"
  shows "nat \<lfloor>r * (real (Suc k) + 1)\<rfloor> \<le> Suc k"
proof -
  from assms have "r * (real (Suc k) + 1) < real (Suc k) + 1"
    by (simp add: validDraw_def)
  then have "\<lfloor>r * (real (Suc k) + 1)\<rfloor> < int (Suc k) + 1"
    by (simp add: floor_less_iff)
  then show ?thesis by simp
qed

lemma shuffleLoop_Some:
  assumes "shuffleLoop k arr rs = Some (arr', rs')"
    and "list_all validDraw rs" and "k < length arr"
  shows "set arr' = set arr \<and> distinct arr' = distinct arr \<and> length arr' = length arr"
  using assms
proof (induction k arr rs rule: shuffleLoop.induct)
  case (1 arr rs)
  then show ?case by simp
next
  case (2 k arr)
  then show ?case by simp
next
  case (3 k arr r rs)
  let ?j = "nat \<lfloor>r * (real (Suc k) + 1)\<rfloor>"
  let ?arr = "arr[Suc k := arr ! ?j, ?j := arr ! Suc k]"
  from "3.prems"(2) have "validDraw r" by simp
  then have "?j \<le> Suc k" by (rule draw_index_le)
  with "3.prems"(3) have j: "?j < length arr" by simp
  from "3.prems"(1) have run: "shuffleLoop k ?arr rs = Some (arr', rs')"
    by (simp add: Let_def)
  have "set arr' = set ?arr \<and> distinct arr' = distinct ?arr \<and> length arr' = length ?arr"
    using "3.IH" [OF refl refl run] "3.prems"(2,3) by simp
  moreover have "set ?arr = set arr"
    using "3.prems"(3) j by (rule set_swap)
  moreover have "distinct ?arr = distinct arr"
    using "3.prems"(3) j by (rule distinct_swap)
  ultimately show ?case by simp
qed

lemma indexOf_member:
  "v \<in> set xs \<Longrightarrow>
   0 \<le> indexOf xs v \<and> nat (indexOf xs v) < length xs \<and> xs ! nat (indexOf xs v) = v"
proof (induction xs)
  case Nil
  then show ?case by simp
next
  case (Cons x xs)
  show ?case
  proof (cases "x = v")
    case True
    then show ?thesis by simp
  next
    case False
    with Cons.prems have "v \<in> set xs" by simp
    then have ih: "0 \<le> indexOf xs v \<and> nat (indexOf xs v) < length xs \<and> xs ! nat (indexOf xs v) = v"
      by (rule Cons.IH)
    then have "nat (indexOf xs v + 1) = Suc (nat (indexOf xs v))" by linarith
    with ih False show ?thesis by (simp add: Let_def)
  qed
qed

lemma draw_digit:
  assumes "validDraw r"
  shows "0 \<le> \<lfloor>r * 10\<rfloor> \<and> \<lfloor>r * 10\<rfloor> \<le> 9"
proof -
  from assms have "0 \<le> r * 10" "r * 10 < 10" by (simp_all add: validDraw_def)
  then show ?thesis by (simp add: floor_less_iff)
qed

lemma drawWave_Some:
  assumes "drawWave rs = Some (a, b, arr, rs')" and "list_all validDraw rs"
  shows "0 \<le> a \<and> a \<le> 9 \<and> 0 \<le> b \<and> b \<le> 9 \<and>
         length arr = FRUIT_COUNT \<and> distinct arr \<and> a + b \<in> set arr"
proof -
  from assms(1) obtain ra rb rs1 where rs: "rs = ra # rb # rs1"
    by (auto simp add: drawWave_def split: list.splits)
  from assms(1) rs have ab: "a = \<lfloor>ra * 10\<rfloor>" "b = \<lfloor>rb * 10\<rfloor>"
    by (auto simp add: drawWave_def Let_def split: option.splits)
  from assms(1) rs ab obtain pool rs2 where
    pool: "poolLoop (a + b) [a + b] rs1 = Some (pool, rs2)" and
    shuf: "shuffleLoop (length pool - 1) pool rs2 = Some (arr, rs')"
    by (auto simp add: drawWave_def Let_def split: option.splits)
  from assms(2) rs have valid: "validDraw ra" "validDraw rb" "list_all validDraw rs1"
    by simp_all
  have p: "distinct pool \<and> a + b \<in> set pool \<and> length pool = FRUIT_COUNT"
    using pool by (rule poolLoop_Some) (simp_all add: FRUIT_COUNT_def)
  have "list_all validDraw rs2"
    using pool valid(3) by (rule poolLoop_rest)
  with shuf have "set arr = set pool \<and> distinct arr = distinct pool \<and> length arr = length pool"
    by (rule shuffleLoop_Some) (simp add: p FRUIT_COUNT_def)
  with p draw_digit [OF valid(1)] draw_digit [OF valid(2)] ab show ?thesis by simp
qed

text \<open>
  The sample wave is the wave of the sample draws.
\<close>

lemma drawWave_sample: "drawWave sampleDraws = Some (3, 4, [8, 7, 5], [])"
  by (simp add: drawWave_def sampleDraws_def Let_def setAdd_def FRUIT_COUNT_def)

lemma buildWave_sample:
  "buildWave st sampleDraws =
     Some (st\<lparr>answers := [8, 7, 5], labels := [''3 + 4 = 8'', ''3 + 4 = 7'', ''3 + 4 = 5''],
              correctIdx := 1, hidden := [False, False, False], halves := [], fallenCount := 0\<rparr>, [])"
  by (simp add: buildWave_def drawWave_sample waveLabel_def numToString_def
      natToString.simps digitChar_def FRUIT_COUNT_def numeral_3_eq_3)

text \<open>
  C1: every wave that \<^verbatim>\<open>buildWave\<close> produces from results of \<^verbatim>\<open>Math.random()\<close> has
  operands \<open>a\<close> and \<open>b\<close> between 0 and 9, labels that render \<open>a + b = v\<close> for each answer
  \<open>v\<close>, and exactly 3 answers, pairwise distinct, exactly one of which equals \<open>a + b\<close>;
  \<open>correctIdx\<close> is the position of that answer in the shuffled array.
\<close>

theorem buildWave_wave_valid:
  assumes "buildWave st rs = Some (st', rs')" and "list_all validDraw rs"
  shows "\<exists>a b. drawWave rs = Some (a, b, answers st', rs') \<and>
           0 \<le> a \<and> a \<le> 9 \<and> 0 \<le> b \<and> b \<le> 9 \<and>
           labels st' = map (waveLabel a b) (answers st') \<and>
           length (answers st') = 3 \<and> distinct (answers st') \<and>
           (\<exists>!i. i < 3 \<and> answers st' ! i = a + b) \<and>
           0 \<le> correctIdx st' \<and> correctIdx st' < 3 \<and>
           answers st' ! nat (correctIdx st') = a + b"
proof -
  from assms(1) obtain a b arr where
    dw: "drawWave rs = Some (a, b, arr, rs')" and
    ans: "answers st' = arr" and
    lbl: "labels st' = map (waveLabel a b) arr" and
    idx: "correctIdx st' = indexOf arr (a + b)"
    by (auto simp add: buildWave_def split: option.splits)
  from dw assms(2) have w: "0 \<le> a \<and> a \<le> 9 \<and> 0 \<le> b \<and> b \<le> 9 \<and>
      length arr = FRUIT_COUNT \<and> distinct arr \<and> a + b \<in> set arr"
    by (rule drawWave_Some)
  then have len: "length arr = 3" by (simp add: FRUIT_COUNT_def)
  from w have pos: "0 \<le> indexOf arr (a + b) \<and> nat (indexOf arr (a + b)) < length arr \<and>
      arr ! nat (indexOf arr (a + b)) = a + b"
    using indexOf_member [of "a + b" arr] by blast
  have one: "\<exists>!i. i < 3 \<and> arr ! i = a + b"
  proof (rule ex1I)
    show "nat (indexOf arr (a + b)) < 3 \<and> arr ! nat (indexOf arr (a + b)) = a + b"
      using pos len by simp
  next
    fix i assume i: "i < 3 \<and> arr ! i = a + b"
    from w have d: "distinct arr" by simp
    from i len have il: "i < length arr" by simp
    from pos have kl: "nat (indexOf arr (a + b)) < length arr" by simp
    from i pos have "arr ! i = arr ! nat (indexOf arr (a + b))" by simp
    with d il kl show "i = nat (indexOf arr (a + b))"
      by (simp add: nth_eq_iff_index_eq)
  qed
  from dw ans lbl idx w len pos one show ?thesis by auto
qed

theorem buildWave_wave_valid_witness:
  "buildWave initSession sampleDraws = Some (sampleSession, []) \<and>
   list_all validDraw sampleDraws \<and>
   (\<exists>a b. drawWave sampleDraws = Some (a, b, [8, 7, 5], []) \<and>
      0 \<le> a \<and> a \<le> 9 \<and> 0 \<le> b \<and> b \<le> 9 \<and>
      labels sampleSession = map (waveLabel a b) [8, 7, 5] \<and>
      length (answers sampleSession) = 3 \<and> distinct [8, 7, 5 :: int] \<and>
      (\<exists>!i. i < 3 \<and> [8, 7, 5] ! i = a + b) \<and>
      correctIdx sampleSession = 1 \<and>
      [8, 7, 5] ! nat (correctIdx sampleSession) = a + b)"
proof -
  have b: "buildWave initSession sampleDraws = Some (sampleSession, [])"
    by (simp add: buildWave_sample initSession_def sampleSession_def)
  have v: "list_all validDraw sampleDraws"
    by (simp add: sampleDraws_def validDraw_def)
  have s: "answers sampleSession = [8, 7, 5]" "correctIdx sampleSession = 1"
    by (simp_all add: sampleSession_def)
  from buildWave_wave_valid [OF b v] b v s show ?thesis by simp
qed
subsection \<open>The session counters\<close>

text \<open>
  \<^verbatim>\<open>buildWave\<close> writes the wave, the hidden flags, the halves and the fallen counter, and
  nothing else.
\<close>

lemma buildWave_frame:
  assumes "buildWave st rs = Some (st', rs')"
  shows "score st' = score st \<and> lives st' = lives st \<and> gameOver st' = gameOver st \<and>
         waveId st' = waveId st \<and> timers st' = timers st \<and>
         hidden st' = replicate FRUIT_COUNT False \<and> fallenCount st' = 0 \<and> halves st' = []"
  using assms by (auto simp add: buildWave_def split: option.splits)

text \<open>
  Every handler keeps the invariant, whatever the refs hold.
\<close>

lemma sessionInv_buildWave:
  "buildWave st rs = Some (st', rs') \<Longrightarrow> sessionInv st \<Longrightarrow> sessionInv st'"
  by (drule buildWave_frame) (simp add: sessionInv_def)

lemma sessionInv_handleFruitFall: "sessionInv st \<Longrightarrow> sessionInv (handleFruitFall m st)"
  by (auto simp add: sessionInv_def handleFruitFall_def Let_def)

lemma sessionInv_onHit:
  "sessionInv st \<Longrightarrow> sessionInv (onHit lbl cIdx x y w h idb i st)"
  by (cases "int i = cIdx") (auto simp add: sessionInv_def onHit_correct onHit_wrong)

lemma sessionInv_jsHandleSlice:
  assumes "sessionInv st"
  shows "sessionInv (jsHandleSlice m st refs x1 y1 x2 y2 idb)"
proof (cases "gameOverRef m")
  case True
  with assms show ?thesis by (simp add: jsHandleSlice_game_over)
next
  case False
  show ?thesis
  proof (cases "find (hitsSlot (hiddenRef m) refs x1 y1 x2 y2) [0..<FRUIT_COUNT]")
    case None
    with assms show ?thesis by (simp add: jsHandleSlice_no_hit)
  next
    case (Some i)
    then have "hitsSlot (hiddenRef m) refs x1 y1 x2 y2 i"
      by (rule find_hit [THEN conjunct2])
    then obtain x y w h where "jsIndex refs i = Some (Some (Returns x y w h))"
      by (rule hitsSlot_Returns)
    with False Some assms show ?thesis
      by (simp add: jsHandleSlice_first_hit sessionInv_onHit)
  qed
qed

lemma reachable_sessionInv: "reachable st m \<Longrightarrow> sessionInv st"
proof (induction rule: reachable.induct)
  case first_render
  show ?case by (simp add: sessionInv_def initSession_def)
next
  case (mount rs st rs')
  have "sessionInv initSession" by (simp add: sessionInv_def initSession_def)
  with mount show ?case by (rule sessionInv_buildWave)
next
  case (commit st m)
  then show ?case by simp
next
  case (slice st m fruitRefs x1 y1 x2 y2 idBase)
  then show ?case by (simp add: sessionInv_jsHandleSlice)
next
  case (fall st m)
  then show ?case by (simp add: sessionInv_handleFruitFall)
next
  case (timeout st m k rs st' rs')
  from timeout.IH have "sessionInv (st\<lparr>timers := take k (timers st) @ drop (Suc k) (timers st),
      waveId := waveId st + 1\<rparr>)"
    by (simp add: sessionInv_def)
  with timeout.hyps(3) show ?case
    by (auto simp add: fireTimer_def nextWave_def intro: sessionInv_buildWave)
next
  case (play_again st m rs st' rs')
  have "sessionInv (st\<lparr>score := 0, lives := 3, gameOver := False, waveId := waveId st + 1\<rparr>)"
    by (simp add: sessionInv_def)
  with play_again.hyps(2) show ?case
    by (auto simp add: restart_def intro: sessionInv_buildWave)
next
  case (half_done st m i)
  then show ?case by (simp add: sessionInv_def removeHalf_def)
qed

text \<open>
  No handler but \<^verbatim>\<open>restart\<close> writes false to \<open>gameOver\<close>.
\<close>

lemma gameOver_onHit: "gameOver st \<Longrightarrow> gameOver (onHit lbl cIdx x y w h idb i st)"
  by (cases "int i = cIdx") (simp_all add: onHit_correct onHit_wrong)

lemma gameOver_jsHandleSlice:
  assumes "gameOver st"
  shows "gameOver (jsHandleSlice m st refs x1 y1 x2 y2 idb)"
proof (cases "gameOverRef m")
  case True
  with assms show ?thesis by (simp add: jsHandleSlice_game_over)
next
  case False
  show ?thesis
  proof (cases "find (hitsSlot (hiddenRef m) refs x1 y1 x2 y2) [0..<FRUIT_COUNT]")
    case None
    with assms show ?thesis by (simp add: jsHandleSlice_no_hit)
  next
    case (Some i)
    then have "hitsSlot (hiddenRef m) refs x1 y1 x2 y2 i"
      by (rule find_hit [THEN conjunct2])
    then obtain x y w h where "jsIndex refs i = Some (Some (Returns x y w h))"
      by (rule hitsSlot_Returns)
    with False Some assms show ?thesis
      by (simp add: jsHandleSlice_first_hit gameOver_onHit)
  qed
qed

lemma gameOver_handleFruitFall: "gameOver st \<Longrightarrow> gameOver (handleFruitFall m st)"
  by (simp add: handleFruitFall_def Let_def)

lemma gameOver_fireTimer:
  "fireTimer k st rs = Some (st', rs') \<Longrightarrow> gameOver st' = gameOver st"
  by (auto simp add: fireTimer_def nextWave_def dest: buildWave_frame)

text \<open>
  Three fall events in a wave that starts with the counter at 0; no commit comes between
  them, as a fall event before the last one writes \<^verbatim>\<open>fallenCountRef\<close> only.
\<close>

lemma three_falls:
  assumes "\<not> gameOverRef m" and "fallenCount st = 0" and "1 < lives st"
  shows "handleFruitFall m (handleFruitFall m (handleFruitFall m st)) =
           st\<lparr>fallenCount := 3, timers := timers st @ [250], lives := lives st - 1\<rparr>"
  using assms by (simp add: handleFruitFall_def Let_def FRUIT_COUNT_def)

lemma three_falls_last_life:
  assumes "\<not> gameOverRef m" and "fallenCount st = 0" and "lives st = 1"
  shows "handleFruitFall m (handleFruitFall m (handleFruitFall m st)) =
           st\<lparr>fallenCount := 3, gameOver := True, lives := 0\<rparr>"
  using assms by (simp add: handleFruitFall_def Let_def FRUIT_COUNT_def)

lemma reachable_three_falls:
  "reachable st m \<Longrightarrow> reachable (handleFruitFall m (handleFruitFall m (handleFruitFall m st))) m"
  by (intro reachable.fall)

text \<open>
  A run to the last life: the first wave is committed, then the sample wave is built two
  more times and all of its bubbles fall each time. The refs of the first commit still
  hold what the state holds, as only lives and the wave number have changed.
\<close>

lemma sample_refs_playing: "\<not> gameOverRef (mirrorsOf sampleSession)"
  by (simp add: mirrorsOf_def sampleSession_def)

lemma reachable_sample: "reachable sampleSession (mirrorsOf sampleSession)"
proof -
  have "buildWave initSession sampleDraws = Some (sampleSession, [])"
    by (simp add: buildWave_sample initSession_def sampleSession_def)
  then have "reachable sampleSession (mirrorsOf initSession)" by (rule reachable.mount)
  then show ?thesis by (rule reachable.commit)
qed

lemma reachable_lastLife: "reachable lastLifeSession (mirrorsOf sampleSession)"
proof -
  let ?m = "mirrorsOf sampleSession"
  let ?a = "sampleSession\<lparr>fallenCount := 3, timers := [250], lives := 2\<rparr>"
  let ?b = "sampleSession\<lparr>lives := 2, waveId := 1\<rparr>"
  let ?c = "?b\<lparr>fallenCount := 3, timers := [250], lives := 1\<rparr>"
  let ?d = "sampleSession\<lparr>lives := 1, waveId := 2\<rparr>"
  have "handleFruitFall ?m (handleFruitFall ?m (handleFruitFall ?m sampleSession)) =
      sampleSession\<lparr>fallenCount := 3, timers := timers sampleSession @ [250],
        lives := lives sampleSession - 1\<rparr>"
    by (rule three_falls [OF sample_refs_playing]) (simp_all add: sampleSession_def)
  also have "\<dots> = ?a" by (simp add: sampleSession_def)
  finally have a: "reachable ?a ?m"
    using reachable_three_falls [OF reachable_sample] by simp
  have fa: "fireTimer 0 ?a sampleDraws = Some (?b, [])"
    by (simp add: fireTimer_def nextWave_def buildWave_sample sampleSession_def)
  have b: "reachable ?b ?m"
    by (rule reachable.timeout [OF a _ fa]) simp
  have "handleFruitFall ?m (handleFruitFall ?m (handleFruitFall ?m ?b)) =
      ?b\<lparr>fallenCount := 3, timers := timers ?b @ [250], lives := lives ?b - 1\<rparr>"
    by (rule three_falls [OF sample_refs_playing]) (simp_all add: sampleSession_def)
  also have "\<dots> = ?c" by (simp add: sampleSession_def)
  finally have c: "reachable ?c ?m"
    using reachable_three_falls [OF b] by simp
  have fc: "fireTimer 0 ?c sampleDraws = Some (?d, [])"
    by (simp add: fireTimer_def nextWave_def buildWave_sample sampleSession_def)
  have "reachable ?d ?m"
    by (rule reachable.timeout [OF c _ fc]) simp
  then show ?thesis by (simp only: lastLifeSession_def)
qed

lemma lastLife_refs: "mirrorsOf lastLifeSession = mirrorsOf sampleSession"
  by (simp add: mirrorsOf_def lastLifeSession_def)

text \<open>
  The slice that takes the last life, on the committed state, and what it leaves.
\<close>

lemma lastLife_hit_0:
  "find (hitsSlot (hiddenRef (mirrorsOf sampleSession)) sampleRefs 10 340 40 340)
     [0..<FRUIT_COUNT] = Some 0"
  by (simp add: mirrorsOf_sel sample_slice)

lemma refs_hit_1:
  "find (hitsSlot (hiddenRef (mirrorsOf sampleSession)) sampleRefs 210 340 250 340)
     [0..<FRUIT_COUNT] = Some 1"
  using sample_hit_1 by (simp add: mirrorsOf_sel)

lemma sampleRefs_0: "jsIndex sampleRefs 0 = Some (Some (Returns 30 300 140 84))"
  by (simp add: jsIndex_def sampleRefs_def rect_def FRUIT_W_def FRUIT_H_def)

lemma sampleRefs_1: "jsIndex sampleRefs 1 = Some (Some (Returns 230 300 140 84))"
  by (simp add: jsIndex_def sampleRefs_def rect_def FRUIT_W_def FRUIT_H_def)

lemma overSession_onHit:
  "overSession =
     onHit (labels sampleSession) (correctIdx sampleSession) 30 300 140 84 1000 0 lastLifeSession"
  unfolding overSession_def lastLife_refs
  using jsHandleSlice_first_hit [OF sample_refs_playing lastLife_hit_0 sampleRefs_0,
      of lastLifeSession 1000]
  by (simp add: mirrorsOf_sel)

lemma overSession_state:
  "gameOver overSession \<and> lives overSession = 0 \<and> score overSession = 0 \<and>
   hidden overSession = [True, False, False] \<and> timers overSession = [200] \<and>
   length (halves overSession) = 2"
  unfolding overSession_onHit
  by (simp add: onHit_wrong hidden_onHit timers_onHit halves_onHit spawnHalves_def Let_def
      setTrue_def lastLifeSession_def sampleSession_def)

lemma reachable_overSession: "reachable overSession (mirrorsOf lastLifeSession)"
  unfolding overSession_def lastLife_refs by (rule reachable.slice [OF reachable_lastLife])

text \<open>
  C5 as stated fails. The run above has one life left and is committed; a slice of
  bubble 0, a wrong one, takes the life: lives is 0 and gameOver is true. The next slice
  event comes before the commit, so \<^verbatim>\<open>gameOverRef\<close> and \<^verbatim>\<open>hiddenRef\<close> still hold the
  values from before the first slice, and the handler slices bubble 1, the correct one,
  while gameOver is true: the score grows from 0 to 1, bubble 1 becomes hidden, two more
  halves are spawned and a second 200 ms timer is scheduled.
\<close>

theorem slice_before_commit_during_game_over:
  "reachable overSession (mirrorsOf lastLifeSession) \<and>
   gameOver overSession \<and> lives overSession = 0 \<and> score overSession = 0 \<and>
   hidden overSession = [True, False, False] \<and>
   score (jsHandleSlice (mirrorsOf lastLifeSession) overSession sampleRefs 210 340 250 340 2000) = 1 \<and>
   hidden (jsHandleSlice (mirrorsOf lastLifeSession) overSession sampleRefs 210 340 250 340 2000) =
     [True, True, False] \<and>
   length (halves (jsHandleSlice (mirrorsOf lastLifeSession) overSession sampleRefs
     210 340 250 340 2000)) = 4 \<and>
   timers (jsHandleSlice (mirrorsOf lastLifeSession) overSession sampleRefs 210 340 250 340 2000) =
     [200, 200] \<and>
   jsHandleSlice (mirrorsOf lastLifeSession) overSession sampleRefs 210 340 250 340 2000 \<noteq>
     overSession"
proof -
  let ?s = "jsHandleSlice (mirrorsOf lastLifeSession) overSession sampleRefs 210 340 250 340 2000"
  have eq: "?s = onHit (labels sampleSession) (correctIdx sampleSession) 230 300 140 84 2000 1
      overSession"
    unfolding lastLife_refs
    using jsHandleSlice_first_hit [OF sample_refs_playing refs_hit_1 sampleRefs_1,
        of overSession 2000]
    by (simp add: mirrorsOf_sel)
  have c: "int 1 = correctIdx sampleSession" by (simp add: sampleSession_def)
  have sc: "score ?s = 1"
    unfolding eq using onHit_correct [OF c] overSession_state by simp
  have hi: "hidden ?s = [True, True, False]"
    unfolding eq hidden_onHit using overSession_state by (simp add: setTrue_def)
  have ha: "length (halves ?s) = 4"
    unfolding eq halves_onHit using overSession_state by (simp add: spawnHalves_def Let_def)
  have ti: "timers ?s = [200, 200]"
    unfolding eq timers_onHit using overSession_state by simp
  from sc overSession_state have ne: "?s \<noteq> overSession" by auto
  from reachable_overSession overSession_state sc hi ha ti ne show ?thesis by simp
qed

text \<open>
  A run that ends by falls: on the last life the three bubbles fall, and the game-over
  state is committed.
\<close>

lemma reachable_sample_game_over: "reachable fallenSession (mirrorsOf fallenSession)"
proof -
  let ?m = "mirrorsOf sampleSession"
  have "handleFruitFall ?m (handleFruitFall ?m (handleFruitFall ?m lastLifeSession)) =
      lastLifeSession\<lparr>fallenCount := 3, gameOver := True, lives := 0\<rparr>"
    by (rule three_falls_last_life [OF sample_refs_playing])
      (simp_all add: lastLifeSession_def sampleSession_def)
  also have "\<dots> = fallenSession"
    by (simp add: lastLifeSession_def fallenSession_def sampleSession_def)
  finally have "reachable fallenSession ?m"
    using reachable_three_falls [OF reachable_lastLife] by simp
  then show ?thesis by (rule reachable.commit)
qed

text \<open>
  C5, amended: in every reachable session state score and lives are not negative, and
  lives is 0 exactly when gameOver is true (the handlers that take the last life set
  gameOver and write 0). Once game over is committed a slice event leaves the whole state
  as it is: the handler returns at once while \<^verbatim>\<open>gameOverRef\<close>, the mirror of gameOver
  that it reads, is true, and on a committed state the mirror is gameOver itself. Until
  restart gameOver stays true: a slice event, a fall event and a timer keep it.
\<close>

theorem reachable_session_invariant:
  assumes "reachable st m"
  shows "0 \<le> score st \<and> 0 \<le> lives st \<and> (lives st = 0 \<longrightarrow> gameOver st) \<and>
         (gameOver st \<longrightarrow>
            lives st = 0 \<and>
            jsHandleSlice (mirrorsOf st) st refs x1 y1 x2 y2 idb = st \<and>
            gameOver (jsHandleSlice m st refs x1 y1 x2 y2 idb) \<and>
            gameOver (handleFruitFall m st) \<and>
            (\<forall>k rs st' rs'. fireTimer k st rs = Some (st', rs') \<longrightarrow> gameOver st')) \<and>
         (gameOverRef m \<longrightarrow> jsHandleSlice m st refs x1 y1 x2 y2 idb = st)"
proof -
  have inv: "0 \<le> score st \<and> 0 \<le> lives st \<and> (lives st = 0 \<longrightarrow> gameOver st) \<and>
      (gameOver st \<longrightarrow> lives st = 0)"
    using reachable_sessionInv [OF assms] by (simp add: sessionInv_def)
  have committed: "gameOver st \<longrightarrow> jsHandleSlice (mirrorsOf st) st refs x1 y1 x2 y2 idb = st"
    by (simp add: jsHandleSlice_game_over mirrorsOf_sel)
  have kept: "gameOver st \<longrightarrow>
      gameOver (jsHandleSlice m st refs x1 y1 x2 y2 idb) \<and> gameOver (handleFruitFall m st) \<and>
      (\<forall>k rs st' rs'. fireTimer k st rs = Some (st', rs') \<longrightarrow> gameOver st')"
    by (auto simp add: gameOver_jsHandleSlice gameOver_handleFruitFall dest: gameOver_fireTimer)
  have frozen: "gameOverRef m \<longrightarrow> jsHandleSlice m st refs x1 y1 x2 y2 idb = st"
    by (simp add: jsHandleSlice_game_over)
  from inv committed kept frozen show ?thesis by blast
qed

theorem reachable_session_invariant_witness:
  "reachable fallenSession (mirrorsOf fallenSession) \<and>
   0 \<le> score fallenSession \<and> lives fallenSession = 0 \<and> gameOver fallenSession \<and>
   gameOverRef (mirrorsOf fallenSession) \<and>
   jsHandleSlice (mirrorsOf fallenSession) fallenSession sampleRefs 10 340 40 340 1000 =
     fallenSession"
  using reachable_session_invariant [OF reachable_sample_game_over, of sampleRefs 10 340 40 340 1000]
    reachable_sample_game_over
  by (simp add: fallenSession_def mirrorsOf_sel)

subsection \<open>A wave whose bubbles all fall\<close>

text \<open>
  The \<^verbatim>\<open>while\<close> loop returns as soon as the draws have given two different offsets.
\<close>

lemma poolLoop_step:
  "length pool < FRUIT_COUNT \<Longrightarrow>
   poolLoop c pool (r # rs) = poolLoop c (setAdd pool (c + drawOffset r)) rs"
  by (simp add: drawOffset_def Let_def)

lemma poolLoop_full: "\<not> length pool < FRUIT_COUNT \<Longrightarrow> poolLoop c pool rs = Some (pool, rs)"
  by (cases rs) simp_all

lemma poolLoop_returns:
  assumes "FRUIT_COUNT \<le> length (foldl setAdd pool (map (\<lambda>r. c + drawOffset r) ds))"
  shows "\<exists>pool' rest. poolLoop c pool (ds @ extra) = Some (pool', rest @ extra)"
  using assms
proof (induction ds arbitrary: pool)
  case Nil
  then have "poolLoop c pool extra = Some (pool, [] @ extra)"
    by (simp add: poolLoop_full)
  then show ?case by force
next
  case (Cons d ds)
  show ?case
  proof (cases "length pool < FRUIT_COUNT")
    case True
    from Cons.prems have
      "FRUIT_COUNT \<le> length (foldl setAdd (setAdd pool (c + drawOffset d))
         (map (\<lambda>r. c + drawOffset r) ds))"
      by simp
    then obtain pool' rest where
      "poolLoop c (setAdd pool (c + drawOffset d)) (ds @ extra) = Some (pool', rest @ extra)"
      using Cons.IH by blast
    with True have "poolLoop c pool ((d # ds) @ extra) = Some (pool', rest @ extra)"
      by (simp only: append_Cons poolLoop_step)
    then show ?thesis by blast
  next
    case False
    then have "poolLoop c pool ((d # ds) @ extra) = Some (pool, (d # ds) @ extra)"
      by (rule poolLoop_full)
    then show ?thesis by blast
  qed
qed

lemma set_foldl_setAdd: "set (foldl setAdd pool xs) = set pool \<union> set xs"
  by (induction xs arbitrary: pool) (auto simp add: set_setAdd)

lemma distinct_foldl_setAdd: "distinct pool \<Longrightarrow> distinct (foldl setAdd pool xs)"
  by (induction xs arbitrary: pool) (simp_all add: distinct_setAdd)

lemma drawOffset_nonzero: "drawOffset r \<noteq> 0"
  by (simp add: drawOffset_def Let_def)

lemma two_offsets_fill_pool:
  assumes "d1 \<in> set ds" and "d2 \<in> set ds" and "drawOffset d1 \<noteq> drawOffset d2"
  shows "FRUIT_COUNT \<le> length (foldl setAdd [c] (map (\<lambda>r. c + drawOffset r) ds))"
proof -
  let ?pool = "foldl setAdd [c] (map (\<lambda>r. c + drawOffset r) ds)"
  have "distinct ?pool" by (simp add: distinct_foldl_setAdd)
  then have len: "length ?pool = card (set ?pool)"
    by (simp add: distinct_card)
  have "{c, c + drawOffset d1, c + drawOffset d2} \<subseteq> set ?pool"
    using assms(1,2) by (auto simp add: set_foldl_setAdd)
  then have "card {c, c + drawOffset d1, c + drawOffset d2} \<le> card (set ?pool)"
    by (simp add: card_mono)
  moreover have "card {c, c + drawOffset d1, c + drawOffset d2} = 3"
    using assms(3) drawOffset_nonzero [of d1] drawOffset_nonzero [of d2] by simp
  ultimately show ?thesis using len by (simp add: FRUIT_COUNT_def)
qed

lemma shuffleLoop_returns:
  "k \<le> length rs \<Longrightarrow> \<exists>arr' rs'. shuffleLoop k arr rs = Some (arr', rs')"
  by (induction k arr rs rule: shuffleLoop.induct) (simp_all add: Let_def)

lemma drawWave_returns:
  assumes "d1 \<in> set ds" and "d2 \<in> set ds" and "drawOffset d1 \<noteq> drawOffset d2"
    and "2 \<le> length extra"
  shows "\<exists>a b arr rs'. drawWave (ra # rb # ds @ extra) = Some (a, b, arr, rs')"
proof -
  let ?c = "\<lfloor>ra * 10\<rfloor> + \<lfloor>rb * 10\<rfloor>"
  have "FRUIT_COUNT \<le> length (foldl setAdd [?c] (map (\<lambda>r. ?c + drawOffset r) ds))"
    using assms(1-3) by (rule two_offsets_fill_pool)
  then obtain pool rest where pool: "poolLoop ?c [?c] (ds @ extra) = Some (pool, rest @ extra)"
    using poolLoop_returns by blast
  then have "distinct pool \<and> ?c \<in> set pool \<and> length pool = FRUIT_COUNT"
    by (rule poolLoop_Some) (simp_all add: FRUIT_COUNT_def)
  then have "length pool - 1 \<le> length (rest @ extra)"
    using assms(4) by (simp add: FRUIT_COUNT_def)
  then obtain arr rs' where "shuffleLoop (length pool - 1) pool (rest @ extra) = Some (arr, rs')"
    using shuffleLoop_returns by blast
  with pool show ?thesis by (simp add: drawWave_def Let_def)
qed

lemma buildWave_returns:
  assumes "d1 \<in> set ds" and "d2 \<in> set ds" and "drawOffset d1 \<noteq> drawOffset d2"
    and "2 \<le> length extra"
  shows "\<exists>st' rs'. buildWave st (ra # rb # ds @ extra) = Some (st', rs')"
proof -
  from assms obtain a b arr rs' where "drawWave (ra # rb # ds @ extra) = Some (a, b, arr, rs')"
    using drawWave_returns by blast
  then show ?thesis by (simp add: buildWave_def)
qed

lemma sample_draws_split: "sampleDraws = 0.35 # 0.41 # [0.5, 0.5, 0.0] @ [0.9, 0.1]"
  by (simp add: sampleDraws_def)

text \<open>
  The wave that \<^verbatim>\<open>buildWave\<close> leaves in the state.
\<close>

lemma buildWave_Some:
  assumes "buildWave st rs = Some (st', rs')"
  shows "\<exists>a b. drawWave rs = Some (a, b, answers st', rs') \<and>
           labels st' = map (waveLabel a b) (answers st') \<and>
           correctIdx st' = indexOf (answers st') (a + b)"
  using assms by (auto simp add: buildWave_def split: option.splits)

lemma drawWave_operands:
  "drawWave (ra # rb # rs) = Some (a, b, arr, rs') \<Longrightarrow> a = \<lfloor>ra * 10\<rfloor> \<and> b = \<lfloor>rb * 10\<rfloor>"
  by (auto simp add: drawWave_def Let_def split: option.splits)

lemma one_correct:
  assumes "distinct arr" and "length arr = 3" and "c \<in> set arr"
  shows "(\<exists>!i. i < 3 \<and> arr ! i = c) \<and> 0 \<le> indexOf arr c \<and> indexOf arr c < 3 \<and>
         arr ! nat (indexOf arr c) = c"
proof -
  from assms(3) have pos: "0 \<le> indexOf arr c \<and> nat (indexOf arr c) < length arr \<and>
      arr ! nat (indexOf arr c) = c"
    by (rule indexOf_member)
  have "\<exists>!i. i < 3 \<and> arr ! i = c"
  proof (rule ex1I)
    show "nat (indexOf arr c) < 3 \<and> arr ! nat (indexOf arr c) = c"
      using pos assms(2) by simp
  next
    fix i assume i: "i < 3 \<and> arr ! i = c"
    with assms(2) have il: "i < length arr" by simp
    from pos have kl: "nat (indexOf arr c) < length arr" by simp
    from i pos have "arr ! i = arr ! nat (indexOf arr c)" by simp
    with assms(1) il kl show "i = nat (indexOf arr c)"
      by (simp add: nth_eq_iff_index_eq)
  qed
  moreover from pos assms(2) have "indexOf arr c < 3" by linarith
  ultimately show ?thesis using pos by simp
qed

text \<open>
  C4: when the three bubbles of a wave fall unsliced while the session is playing with
  3 lives, lives becomes 2, the session keeps playing and the 250 ms timer is pending.
  When that timer fires, with draws that let \<^verbatim>\<open>buildWave\<close> return (two draws for the
  operands, then draws among which two give different offsets, then two or more for the
  shuffle), a new wave is built: the wave number has grown by 1, the answers are the
  array that \<^verbatim>\<open>buildWave\<close> draws for the operands of these draws, 3 distinct numbers of
  which exactly one is the sum, at \<open>correctIdx\<close>, the labels render them, the fallen
  counter is 0 again, no bubble is hidden, no half is left, and lives is still 2.
\<close>

theorem all_bubbles_fall:
  assumes "\<not> gameOver st" and "\<not> gameOverRef m" and "lives st = 3" and "fallenCount st = 0"
    and "list_all validDraw (ra # rb # ds @ extra)"
    and "d1 \<in> set ds" and "d2 \<in> set ds" and "drawOffset d1 \<noteq> drawOffset d2"
    and "2 \<le> length extra"
  shows "let st3 = handleFruitFall m (handleFruitFall m (handleFruitFall m st)) in
           lives st3 = 2 \<and> \<not> gameOver st3 \<and> timers st3 = timers st @ [250] \<and>
           (\<exists>st' rs'. fireTimer (length (timers st)) st3 (ra # rb # ds @ extra) = Some (st', rs') \<and>
              lives st' = 2 \<and> \<not> gameOver st' \<and> score st' = score st \<and>
              timers st' = timers st \<and> waveId st' = waveId st + 1 \<and>
              fallenCount st' = 0 \<and> hidden st' = replicate FRUIT_COUNT False \<and> halves st' = [] \<and>
              drawWave (ra # rb # ds @ extra) =
                Some (\<lfloor>ra * 10\<rfloor>, \<lfloor>rb * 10\<rfloor>, answers st', rs') \<and>
              labels st' = map (waveLabel \<lfloor>ra * 10\<rfloor> \<lfloor>rb * 10\<rfloor>) (answers st') \<and>
              length (answers st') = 3 \<and> distinct (answers st') \<and>
              (\<exists>!i. i < 3 \<and> answers st' ! i = \<lfloor>ra * 10\<rfloor> + \<lfloor>rb * 10\<rfloor>) \<and>
              0 \<le> correctIdx st' \<and> correctIdx st' < 3 \<and>
              answers st' ! nat (correctIdx st') = \<lfloor>ra * 10\<rfloor> + \<lfloor>rb * 10\<rfloor>)"
proof -
  let ?rs = "ra # rb # ds @ extra"
  let ?st3 = "st\<lparr>fallenCount := 3, timers := timers st @ [250], lives := lives st - 1\<rparr>"
  let ?fired = "?st3\<lparr>timers := take (length (timers st)) (timers ?st3) @
      drop (Suc (length (timers st))) (timers ?st3), waveId := waveId st + 1\<rparr>"
  have falls: "handleFruitFall m (handleFruitFall m (handleFruitFall m st)) = ?st3"
    using assms(2-4) by (simp add: three_falls)
  obtain st' rs' where built: "buildWave ?fired ?rs = Some (st', rs')"
    using buildWave_returns [OF assms(6-9)] by blast
  then have fired: "fireTimer (length (timers st)) ?st3 ?rs = Some (st', rs')"
    by (simp add: fireTimer_def nextWave_def)
  from buildWave_frame [OF built] assms(1,3)
  have frame: "lives st' = 2 \<and> \<not> gameOver st' \<and> score st' = score st \<and>
      timers st' = timers st \<and> waveId st' = waveId st + 1 \<and>
      fallenCount st' = 0 \<and> hidden st' = replicate FRUIT_COUNT False \<and> halves st' = []"
    by simp
  from buildWave_Some [OF built] obtain a b where
    dw: "drawWave ?rs = Some (a, b, answers st', rs')" and
    lbl: "labels st' = map (waveLabel a b) (answers st')" and
    idx: "correctIdx st' = indexOf (answers st') (a + b)"
    by blast
  from dw have ab: "a = \<lfloor>ra * 10\<rfloor> \<and> b = \<lfloor>rb * 10\<rfloor>" by (rule drawWave_operands)
  from dw assms(5) have shape: "0 \<le> a \<and> a \<le> 9 \<and> 0 \<le> b \<and> b \<le> 9 \<and>
      length (answers st') = FRUIT_COUNT \<and> distinct (answers st') \<and> a + b \<in> set (answers st')"
    by (rule drawWave_Some)
  then have len: "length (answers st') = 3" by (simp add: FRUIT_COUNT_def)
  from shape len have one: "(\<exists>!i. i < 3 \<and> answers st' ! i = a + b) \<and>
      0 \<le> indexOf (answers st') (a + b) \<and> indexOf (answers st') (a + b) < 3 \<and>
      answers st' ! nat (indexOf (answers st') (a + b)) = a + b"
    by (intro one_correct) simp_all
  have wave: "drawWave ?rs = Some (\<lfloor>ra * 10\<rfloor>, \<lfloor>rb * 10\<rfloor>, answers st', rs') \<and>
      labels st' = map (waveLabel \<lfloor>ra * 10\<rfloor> \<lfloor>rb * 10\<rfloor>) (answers st') \<and>
      length (answers st') = 3 \<and> distinct (answers st') \<and>
      (\<exists>!i. i < 3 \<and> answers st' ! i = \<lfloor>ra * 10\<rfloor> + \<lfloor>rb * 10\<rfloor>) \<and>
      0 \<le> correctIdx st' \<and> correctIdx st' < 3 \<and>
      answers st' ! nat (correctIdx st') = \<lfloor>ra * 10\<rfloor> + \<lfloor>rb * 10\<rfloor>"
    using dw lbl one shape len unfolding idx by (simp add: ab)
  have st3: "lives ?st3 = 2 \<and> \<not> gameOver ?st3 \<and> timers ?st3 = timers st @ [250]"
    using assms(1,3) by simp
  from fired frame wave
  have "\<exists>st' rs'. fireTimer (length (timers st)) ?st3 ?rs = Some (st', rs') \<and>
      lives st' = 2 \<and> \<not> gameOver st' \<and> score st' = score st \<and>
      timers st' = timers st \<and> waveId st' = waveId st + 1 \<and>
      fallenCount st' = 0 \<and> hidden st' = replicate FRUIT_COUNT False \<and> halves st' = [] \<and>
      drawWave ?rs = Some (\<lfloor>ra * 10\<rfloor>, \<lfloor>rb * 10\<rfloor>, answers st', rs') \<and>
      labels st' = map (waveLabel \<lfloor>ra * 10\<rfloor> \<lfloor>rb * 10\<rfloor>) (answers st') \<and>
      length (answers st') = 3 \<and> distinct (answers st') \<and>
      (\<exists>!i. i < 3 \<and> answers st' ! i = \<lfloor>ra * 10\<rfloor> + \<lfloor>rb * 10\<rfloor>) \<and>
      0 \<le> correctIdx st' \<and> correctIdx st' < 3 \<and>
      answers st' ! nat (correctIdx st') = \<lfloor>ra * 10\<rfloor> + \<lfloor>rb * 10\<rfloor>"
    by blast
  with st3 show ?thesis
    unfolding falls Let_def by blast
qed

theorem all_bubbles_fall_witness:
  "\<not> gameOver sampleSession \<and> \<not> gameOverRef (mirrorsOf sampleSession) \<and>
   lives sampleSession = 3 \<and> fallenCount sampleSession = 0 \<and>
   list_all validDraw sampleDraws \<and>
   (0.5::real) \<in> set [0.5, 0.5, 0.0] \<and> (0.0::real) \<in> set [0.5, 0.5, 0.0] \<and>
   drawOffset 0.5 \<noteq> drawOffset 0.0 \<and> 2 \<le> length [0.9::real, 0.1] \<and>
   lives (handleFruitFall (mirrorsOf sampleSession) (handleFruitFall (mirrorsOf sampleSession)
     (handleFruitFall (mirrorsOf sampleSession) sampleSession))) = 2 \<and>
   timers (handleFruitFall (mirrorsOf sampleSession) (handleFruitFall (mirrorsOf sampleSession)
     (handleFruitFall (mirrorsOf sampleSession) sampleSession))) = [250] \<and>
   (\<exists>st' rs'. fireTimer 0 (handleFruitFall (mirrorsOf sampleSession)
        (handleFruitFall (mirrorsOf sampleSession)
          (handleFruitFall (mirrorsOf sampleSession) sampleSession))) sampleDraws = Some (st', rs') \<and>
      lives st' = 2 \<and> \<not> gameOver st' \<and> score st' = 0 \<and> timers st' = [] \<and>
      waveId st' = 1 \<and> fallenCount st' = 0 \<and>
      hidden st' = [False, False, False] \<and> halves st' = [] \<and>
      drawWave sampleDraws = Some (3, 4, answers st', rs') \<and>
      labels st' = map (waveLabel 3 4) (answers st') \<and>
      length (answers st') = 3 \<and> distinct (answers st') \<and>
      (\<exists>!i. i < 3 \<and> answers st' ! i = 7) \<and>
      0 \<le> correctIdx st' \<and> correctIdx st' < 3 \<and>
      answers st' ! nat (correctIdx st') = 7)"
proof -
  have h1: "\<not> gameOver sampleSession" "\<not> gameOverRef (mirrorsOf sampleSession)"
      "lives sampleSession = 3" "fallenCount sampleSession = 0"
    by (simp_all add: sampleSession_def mirrorsOf_def)
  have h5: "list_all validDraw (0.35 # 0.41 # [0.5, 0.5, 0.0] @ [0.9, 0.1])"
    by (simp add: validDraw_def)
  have h6: "(0.5::real) \<in> set [0.5, 0.5, 0.0]" "(0.0::real) \<in> set [0.5, 0.5, 0.0]" by simp_all
  have h8: "drawOffset 0.5 \<noteq> drawOffset 0.0" by (simp add: drawOffset_def Let_def)
  have h9: "2 \<le> length [0.9::real, 0.1]" by simp
  have t: "timers sampleSession = []" "waveId sampleSession = 0" "score sampleSession = 0"
    by (simp_all add: sampleSession_def)
  have fl: "\<lfloor>0.35 * (10::real)\<rfloor> = 3" "\<lfloor>0.41 * (10::real)\<rfloor> = 4" by simp_all
  have v: "list_all validDraw sampleDraws"
    by (simp add: sampleDraws_def validDraw_def)
  from all_bubbles_fall [OF h1 h5 h6 h8 h9] h1 v h6 h8 h9
  show ?thesis
    by (simp add: Let_def t fl sample_draws_split FRUIT_COUNT_def numeral_3_eq_3)
qed

subsection \<open>Segment against rectangle\<close>
















subsection \<open>The slice test of the code\<close>












subsection \<open>Off-screen events of the falling bodies\<close>

text \<open>
  A bubble latches \<open>fell\<close>: over any run of frames, with any \<open>hidden\<close> props, it
  calls \<^verbatim>\<open>onFall\<close> at most once, and never again once \<open>fell\<close> is set.
\<close>

lemma bubbleTick_fell:
  "fell b \<Longrightarrow> fell (fst (bubbleTick screenH hid b)) \<and> \<not> snd (bubbleTick screenH hid b)"
  by (simp add: bubbleTick_def Let_def)

lemma bubbleTick_event:
  "snd (bubbleTick screenH hid b) \<Longrightarrow> \<not> fell b \<and> fell (fst (bubbleTick screenH hid b))"
  by (auto simp add: bubbleTick_def Let_def split: if_splits)

lemma bubbleRun_fell: "fell b \<Longrightarrow> snd (bubbleRun screenH hs b) = 0"
proof (induction hs arbitrary: b)
  case Nil
  show ?case by simp
next
  case (Cons hid hs)
  from Cons.prems have "fell (fst (bubbleTick screenH hid b)) \<and> \<not> snd (bubbleTick screenH hid b)"
    by (rule bubbleTick_fell)
  then show ?case
    using Cons.IH [of "fst (bubbleTick screenH hid b)"]
    by (simp add: split_beta)
qed

lemma bubble_falls_at_most_once: "snd (bubbleRun screenH hs b) \<le> 1"
proof (induction hs arbitrary: b)
  case Nil
  show ?case by simp
next
  case (Cons hid hs)
  show ?case
  proof (cases "snd (bubbleTick screenH hid b)")
    case True
    then have "fell (fst (bubbleTick screenH hid b))"
      by (simp add: bubbleTick_event)
    then have "snd (bubbleRun screenH hs (fst (bubbleTick screenH hid b))) = 0"
      by (rule bubbleRun_fell)
    then show ?thesis by (simp add: split_beta)
  next
    case False
    then show ?thesis
      using Cons.IH [of "fst (bubbleTick screenH hid b)"] by (simp add: split_beta)
  qed
qed

lemma halfTick_below:
  assumes "screenH + 200 < h_y h + h_vy h" and "0 \<le> h_vy h"
  shows "snd (halfTick screenH h) \<and>
         screenH + 200 < h_y (fst (halfTick screenH h)) + h_vy (fst (halfTick screenH h)) \<and>
         0 \<le> h_vy (fst (halfTick screenH h))"
  using assms by (simp add: halfTick_def Let_def GRAVITY_def)

text \<open>
  C6, as the code behaves for a half: \<^verbatim>\<open>SlicedHalf\<close> has no latch. Once a half that
  is not moving upwards is below \<open>screenH + 200\<close> after its next step, every frame calls
  \<^verbatim>\<open>onDone\<close>: \<open>n\<close> frames give \<open>n\<close> calls.
\<close>

theorem half_done_fires_every_frame:
  assumes "screenH + 200 < h_y h + h_vy h" and "0 \<le> h_vy h"
  shows "snd (halfRun screenH n h) = n"
  using assms
proof (induction n arbitrary: h)
  case 0
  show ?case by simp
next
  case (Suc n)
  from Suc.prems have step: "snd (halfTick screenH h) \<and>
      screenH + 200 < h_y (fst (halfTick screenH h)) + h_vy (fst (halfTick screenH h)) \<and>
      0 \<le> h_vy (fst (halfTick screenH h))"
    by (rule halfTick_below)
  then have "snd (halfRun screenH n (fst (halfTick screenH h))) = n"
    by (simp add: Suc.IH)
  with step show ?case by (simp add: split_beta)
qed

theorem half_done_fires_every_frame_witness:
  "(800::real) + 200 < h_y \<lparr>h_x = 100, h_y = 1000, h_vx = 6, h_vy = 1, h_rot = 15\<rparr> +
      h_vy \<lparr>h_x = 100, h_y = 1000, h_vx = 6, h_vy = 1, h_rot = 15\<rparr> \<and>
   0 \<le> h_vy \<lparr>h_x = 100, h_y = 1000, h_vx = 6, h_vy = 1, h_rot = 15\<rparr> \<and>
   snd (halfRun 800 2 \<lparr>h_x = 100, h_y = 1000, h_vx = 6, h_vy = 1, h_rot = 15\<rparr>) = 2"
proof -
  let ?h = "\<lparr>h_x = 100, h_y = 1000, h_vx = 6, h_vy = 1, h_rot = 15\<rparr>"
  have a: "(800::real) + 200 < h_y ?h + h_vy ?h" by simp
  have b: "0 \<le> h_vy ?h" by simp
  from half_done_fires_every_frame [OF a b, of 2] a b show ?thesis by simp
qed

text \<open>
  C10: a fall event that leaves the fallen counter below the number of bubble slots
  changes the fallen counter only: score, lives, gameOver, the hidden flags, the wave
  (labels, answers, correct index, wave id), the halves and the pending timers stay as
  they were.
\<close>

theorem handleFruitFall_below_count:
  assumes "fallenCount st + 1 < int FRUIT_COUNT"
  shows "handleFruitFall m st = st\<lparr>fallenCount := fallenCount st + 1\<rparr>"
  using assms by (simp add: handleFruitFall_def Let_def)

theorem handleFruitFall_below_count_witness:
  "fallenCount initSession + 1 < int FRUIT_COUNT \<and>
   handleFruitFall (mirrorsOf initSession) initSession = initSession\<lparr>fallenCount := 1\<rparr>"
  using handleFruitFall_below_count [of initSession "mirrorsOf initSession"]
  by (simp add: initSession_def FRUIT_COUNT_def)

end
